theory Spec2Isabelle
  imports Complex_Main
begin

section \<open>JavaScript values used by the squid\<close>

text \<open>
  The batch handler of \<^verbatim>\<open>src/main.ts\<close> is embedded as pure functions. Everything the
  TypeScript does besides returning a value is explicit: a thrown value is \<open>Inl e\<close> of a
  sum, \<open>undefined\<close> is \<open>None\<close>, a loop that may run forever returns \<open>None\<close> of an outer
  option, objects live in heaps addressed by references, and the requests that leave the
  process are recorded in a trace.
\<close>

text \<open>Thrown values. \<open>ClientError\<close> is whatever the HTTP client throws (network error,
  non-2xx status, unparseable body) and \<open>RpcError\<close> what the on-chain call layer throws;
  both carry their rendering by a template literal.\<close>

datatype exn = TypeError string | Error string | ClientError string | RpcError string

text \<open>The rendering of a thrown value in a template literal.\<close>

fun render :: "exn \<Rightarrow> string" where
  "render (TypeError m) = ''TypeError: '' @ m"
| "render (Error m) = ''Error: '' @ m"
| "render (ClientError s) = s"
| "render (RpcError s) = s"

text \<open>A parsed JSON document. An object lists its properties, each name once. The payload
  of a number is never read by the handler.\<close>

datatype json =
    JNull
  | JBool bool
  | JNum int
  | JStr string
  | JArr "json list"
  | JObj "(string \<times> json) list"

text \<open>Reading the property \<open>k\<close> of a value that is not \<open>null\<close>, for the four names the
  handler reads (\<^verbatim>\<open>image\<close>, \<^verbatim>\<open>attributes\<close>, \<^verbatim>\<open>trait_type\<close>, \<^verbatim>\<open>value\<close>): an object
  gives its own property, every other value gives \<open>undefined\<close>, since no prototype
  defines one of these names.\<close>

fun get_member :: "json \<Rightarrow> string \<Rightarrow> json option" where
  "get_member (JObj kvs) k = map_of kvs k"
| "get_member _ k = None"

text \<open>\<^verbatim>\<open>String.prototype.startsWith\<close>.\<close>

definition startsWith :: "string \<Rightarrow> string \<Rightarrow> bool" where
  "startsWith s p = (take (length p) s = p)"

text \<open>\<^verbatim>\<open>BigInt.prototype.toString\<close>: the decimal digits, with a sign for a negative
  number.\<close>

definition digit_char :: "nat \<Rightarrow> char" where
  "digit_char d = ''0123456789'' ! d"

fun nat_to_string :: "nat \<Rightarrow> string" where
  "nat_to_string n =
     (if n < 10 then [digit_char n] else nat_to_string (n div 10) @ [digit_char (n mod 10)])"

definition toString :: "int \<Rightarrow> string" where
  "toString i = (if i < 0 then CHR ''-'' # nat_to_string (nat (- i)) else nat_to_string (nat i))"

text \<open>A JavaScript \<^verbatim>\<open>Map\<close> keeps its entries in insertion order and holds a key once:
  \<^verbatim>\<open>set\<close> replaces the value of a key that is present, in place, and appends a new
  key. A \<^verbatim>\<open>Set\<close> appends a value that is not yet a member.\<close>

fun Map_set :: "'k \<Rightarrow> 'v \<Rightarrow> ('k \<times> 'v) list \<Rightarrow> ('k \<times> 'v) list" where
  "Map_set k v [] = [(k, v)]"
| "Map_set k v (e # m) = (if fst e = k then (k, v) # m else e # Map_set k v m)"

definition Map_get :: "('k \<times> 'v) list \<Rightarrow> 'k \<Rightarrow> 'v option" where
  "Map_get m k = map_of m k"

definition Map_keys :: "('k \<times> 'v) list \<Rightarrow> 'k list" where
  "Map_keys m = map fst m"

definition Map_values :: "('k \<times> 'v) list \<Rightarrow> 'v list" where
  "Map_values m = map snd m"

text \<open>\<^verbatim>\<open>new Map(entries)\<close>.\<close>

definition Map_of_entries :: "('k \<times> 'v) list \<Rightarrow> ('k \<times> 'v) list" where
  "Map_of_entries es = fold (\<lambda>e m. Map_set (fst e) (snd e) m) es []"

definition Set_add :: "'a \<Rightarrow> 'a list \<Rightarrow> 'a list" where
  "Set_add x s = (if x \<in> set s then s else s @ [x])"

text \<open>Indexing an array: \<open>undefined\<close> out of range.\<close>

definition at_index :: "'a list \<Rightarrow> nat \<Rightarrow> 'a option" where
  "at_index xs i = (if i < length xs then Some (xs ! i) else None)"

text \<open>\<^verbatim>\<open>Array.prototype.slice\<close> for \<open>0 \<le> a \<le> b\<close>, and \<^verbatim>\<open>slice(a)\<close> is \<open>drop a\<close>.\<close>

definition slice :: "'a list \<Rightarrow> nat \<Rightarrow> nat \<Rightarrow> 'a list" where
  "slice xs a b = take (b - a) (drop a xs)"

text \<open>\<^verbatim>\<open>Promise.all\<close>: the results in input order when every promise fulfils, else a
  rejection. Which rejection is reported when several promises reject depends on the
  order in which they settle; the embedding reports the first in input order.\<close>

fun Promise_all :: "(exn + 'a) list \<Rightarrow> exn + 'a list" where
  "Promise_all [] = Inr []"
| "Promise_all (Inl e # ps) = Inl e"
| "Promise_all (Inr v # ps) = (case Promise_all ps of Inl e \<Rightarrow> Inl e | Inr vs \<Rightarrow> Inr (v # vs))"

text \<open>\<^verbatim>\<open>Math.ceil(a / b)\<close> for integers \<open>a\<close> and \<open>b > 0\<close> below \<open>2^53\<close>, where the
  floating-point quotient rounds to an integer only when it is one. The handler divides by
  \<^verbatim>\<open>MAX_IPFS_REQ_SEC\<close> only for an item of a batch, and with a ceiling of zero no batch
  has an item.\<close>

definition ceil_div :: "int \<Rightarrow> int \<Rightarrow> int" where
  "ceil_div a b = - ((- a) div b)"

subsection \<open>Node's \<^verbatim>\<open>path.posix.join\<close>\<close>

text \<open>\<^verbatim>\<open>path.posix.join\<close> joins its non-empty arguments with \<^verbatim>\<open>/\<close> and normalises the
  result: empty and \<^verbatim>\<open>.\<close> segments are dropped, a \<^verbatim>\<open>..\<close> segment removes the segment
  before it, runs of separators become one, a trailing separator is kept.\<close>

fun split_sep :: "string \<Rightarrow> string list" where
  "split_sep [] = [[]]"
| "split_sep (c # cs) =
     (if c = CHR ''/'' then [] # split_sep cs
      else (case split_sep cs of [] \<Rightarrow> [[c]] | s # ss \<Rightarrow> (c # s) # ss))"

fun join_sep :: "string list \<Rightarrow> string" where
  "join_sep [] = []"
| "join_sep [s] = s"
| "join_sep (s # t # ss) = s @ CHR ''/'' # join_sep (t # ss)"

fun normalizeString :: "bool \<Rightarrow> string list \<Rightarrow> string list \<Rightarrow> string list" where
  "normalizeString allowAboveRoot [] res = res"
| "normalizeString allowAboveRoot (seg # segs) res =
     (if seg = [] \<or> seg = ''.'' then normalizeString allowAboveRoot segs res
      else if seg = ''..'' then
        (if res \<noteq> [] \<and> last res \<noteq> ''..'' then normalizeString allowAboveRoot segs (butlast res)
         else if allowAboveRoot then normalizeString allowAboveRoot segs (res @ [''..''])
         else normalizeString allowAboveRoot segs res)
      else normalizeString allowAboveRoot segs (res @ [seg]))"

definition posix_normalize :: "string \<Rightarrow> string" where
  "posix_normalize path =
     (if path = [] then ''.''
      else
        (let isAbsolute = (hd path = CHR ''/'');
             trailingSeparator = (last path = CHR ''/'');
             p = join_sep (normalizeString (\<not> isAbsolute) (split_sep path) [])
         in if p = [] then (if isAbsolute then ''/'' else if trailingSeparator then ''./'' else ''.'')
            else (let q = (if trailingSeparator then p @ ''/'' else p)
                  in if isAbsolute then CHR ''/'' # q else q)))"

definition posix_join :: "string list \<Rightarrow> string" where
  "posix_join args =
     (let joined = filter (\<lambda>a. a \<noteq> []) args
      in if joined = [] then ''.'' else posix_normalize (join_sep joined))"

section \<open>Data model\<close>

text \<open>Entities are objects: two references are the same object when they are the same
  index into the heap of their class. A field is prefixed with its class.\<close>

type_synonym ref = nat

record Owner =
  owner_id :: string

record Attribute =
  traitType :: "json option"
  attr_value :: "json option"

record Token =
  token_id :: string
  token_index :: int
  token_owner :: "ref option"
  token_uri :: "string option"
  token_image :: "json option"
  token_attributes :: "Attribute list option"

record Transfer =
  transfer_id :: string
  blockNumber :: int
  transfer_timestamp :: int
  txHash :: string
  transfer_from :: ref
  transfer_to :: ref
  transfer_token :: ref

record Block =
  height :: int
  timestamp :: int

record Transaction =
  hash :: string

record TransferEvent =
  event_id :: string
  event_block :: Block
  event_transaction :: Transaction
  event_from :: string
  event_to :: string
  tokenIndex :: int

text \<open>The constants at the head of \<^verbatim>\<open>main.ts\<close>, as a configuration.\<close>

record Config =
  MUTLTICALL_BATCH_SIZE :: nat
  MAX_IPFS_REQ_SEC :: nat
  IPFS_GATEWAY :: string

definition main_config :: Config where
  "main_config = \<lparr>MUTLTICALL_BATCH_SIZE = 50, MAX_IPFS_REQ_SEC = 25, IPFS_GATEWAY = ''https://ipfs.io''\<rparr>"

text \<open>The collaborators behind \<^verbatim>\<open>ctx\<close> and the HTTP client: the rows of the two tables,
  the blocks of the batch, the contract's \<^verbatim>\<open>tokenURI\<close> at a block (\<open>None\<close> when the call
  reverts), and what \<^verbatim>\<open>client.get\<close> returns or throws for a URL.\<close>

record Context =
  stored_tokens :: "Token list"
  stored_owners :: "Owner list"
  blocks :: "Block list"
  tokenURI :: "Block \<Rightarrow> int \<Rightarrow> string option"
  client_get :: "string \<Rightarrow> exn + json"

text \<open>\<^verbatim>\<open>ctx.store.findBy(E, {id: In(ids)})\<close>: the rows whose id is among \<open>ids\<close>.\<close>

definition findBy :: "('e \<Rightarrow> string) \<Rightarrow> string list \<Rightarrow> 'e list \<Rightarrow> 'e list" where
  "findBy ident ids rows = filter (\<lambda>e. ident e \<in> set ids) rows"

section \<open>Utility functions\<close>

text \<open>\<^verbatim>\<open>splitIntoBatches\<close> is a generator; the embedding returns the list of what it
  yields, or \<open>None\<close> when it never finishes.\<close>

partial_function (option) batches_from :: "'a list \<Rightarrow> nat \<Rightarrow> nat \<Rightarrow> 'a list list option" where
  "batches_from list maxBatchSize offset =
     (if int (length list) - int offset > int maxBatchSize
      then Option.bind (batches_from list maxBatchSize (offset + maxBatchSize))
             (\<lambda>rest. Some (slice list offset (offset + maxBatchSize) # rest))
      else Some [drop offset list])"

declare batches_from.simps [code]

definition splitIntoBatches :: "'a list \<Rightarrow> nat \<Rightarrow> 'a list list option" where
  "splitIntoBatches list maxBatchSize =
     (if length list \<le> maxBatchSize then Some [list] else batches_from list maxBatchSize 0)"

section \<open>Fetching token metadata\<close>

text \<open>\<^verbatim>\<open>ipfsRegExp.exec(uri)\<close> for \<^verbatim>\<open>/^ipfs:\/\/(.+)$/\<close>: the capture group, when the
  text after the marker is not empty and holds no line terminator (a dot matches none).
  A \<open>char\<close> is a code unit below 256, so the terminators are line feed and carriage
  return.\<close>

definition is_line_terminator :: "char \<Rightarrow> bool" where
  "is_line_terminator c = (c = CHR 0x0A \<or> c = CHR 0x0D)"

definition ipfsRegExp_exec :: "string \<Rightarrow> string option" where
  "ipfsRegExp_exec uri =
     (if take 7 uri = ''ipfs://'' \<and> drop 7 uri \<noteq> [] \<and> \<not> list_ex is_line_terminator (drop 7 uri)
      then Some (drop 7 uri) else None)"

text \<open>The \<^verbatim>\<open>catch\<close> clause of \<^verbatim>\<open>fetchTokenMetadata\<close>.\<close>

definition fetch_failure :: "string \<Rightarrow> exn \<Rightarrow> exn" where
  "fetch_failure uri e = Error (''failed to fetch metadata at '' @ uri @ ''. Error: '' @ render e)"

text \<open>\<^verbatim>\<open>fetchTokenMetadata\<close> returns what the promise settles to, and the URLs it passed
  to \<^verbatim>\<open>client.get\<close>. The messages written to \<^verbatim>\<open>ctx.log\<close> are left out: they return
  nothing and reach no branch.\<close>

definition fetchTokenMetadata :: "Config \<Rightarrow> Context \<Rightarrow> string \<Rightarrow> (exn + json option) \<times> string list" where
  "fetchTokenMetadata cfg ctx uri =
     (if startsWith uri ''ipfs://'' then
        (case ipfsRegExp_exec uri of
           None \<Rightarrow> (Inl (fetch_failure uri (TypeError ''Cannot read properties of null'')), [])
         | Some cid \<Rightarrow>
             (let gatewayURL = posix_join [IPFS_GATEWAY cfg, cid]
              in case client_get ctx gatewayURL of
                   Inl e \<Rightarrow> (Inl (fetch_failure uri e), [gatewayURL])
                 | Inr res \<Rightarrow> (Inr (Some res), [gatewayURL])))
      else if startsWith uri ''http://'' \<or> startsWith uri ''https://'' then
        (case client_get ctx uri of
           Inl e \<Rightarrow> (Inl (fetch_failure uri e), [uri])
         | Inr res \<Rightarrow> (Inr (Some res), [uri]))
      else (Inr None, []))"

section \<open>Enriching the new tokens\<close>

text \<open>Modelled from the spec: \<^verbatim>\<open>Multicall.aggregate\<close> (\<^verbatim>\<open>src/abi/multicall.ts\<close>) is not
  among the sources. It returns one decoded result per argument tuple, in input order,
  whatever the chunk size, and fails as a whole when a call of a chunk fails.\<close>

fun aggregate_calls :: "(int \<Rightarrow> string option) \<Rightarrow> int list \<Rightarrow> exn + string list" where
  "aggregate_calls call [] = Inr []"
| "aggregate_calls call (a # as) =
     (case call a of
        None \<Rightarrow> Inl (RpcError ''aggregate call failed'')
      | Some u \<Rightarrow> (case aggregate_calls call as of Inl e \<Rightarrow> Inl e | Inr us \<Rightarrow> Inr (u # us)))"

definition aggregate :: "(int \<Rightarrow> string option) \<Rightarrow> int list \<Rightarrow> nat \<Rightarrow> exn + string list" where
  "aggregate call args maxBatchSize = aggregate_calls call args"

text \<open>What one rate-limit group did: the timers it set, each with the delay passed to
  \<^verbatim>\<open>sleep\<close> and the URI fetched when it fires, and the URLs requested.\<close>

record GroupTrace =
  timers :: "(int \<times> string) list"
  requests :: "string list"

record InitTrace =
  calls :: "int list"
  groups :: "GroupTrace list"

text \<open>The argument of \<^verbatim>\<open>sleep\<close> for the item at \<open>index\<close> of its batch.\<close>

definition sleep_ms :: "Config \<Rightarrow> nat \<Rightarrow> int" where
  "sleep_ms cfg index = ceil_div (1000 * (int index + 1)) (int (MAX_IPFS_REQ_SEC cfg))"

text \<open>One iteration of the loop over the batches: \<^verbatim>\<open>batch.map\<close> sets every timer of
  the batch at once; each fetch runs when its timer fires, whatever the others settle
  to; \<^verbatim>\<open>await Promise.all\<close> joins them.\<close>

definition run_group :: "Config \<Rightarrow> Context \<Rightarrow> string list \<Rightarrow> GroupTrace \<times> (exn + json option list)" where
  "run_group cfg ctx batch =
     (let fetched = map (fetchTokenMetadata cfg ctx) batch
      in (\<lparr>timers = map (\<lambda>(index, uri). (sleep_ms cfg index, uri)) (enumerate 0 batch),
           requests = concat (map snd fetched)\<rparr>,
          Promise_all (map fst fetched)))"

text \<open>The loop over the batches: a rejected group ends it, so no later group starts.\<close>

fun run_batches :: "Config \<Rightarrow> Context \<Rightarrow> string list list \<Rightarrow> GroupTrace list \<times> (exn + json option list)" where
  "run_batches cfg ctx [] = ([], Inr [])"
| "run_batches cfg ctx (batch # rest) =
     (case run_group cfg ctx batch of
        (g, Inl e) \<Rightarrow> ([g], Inl e)
      | (g, Inr m) \<Rightarrow>
          (case run_batches cfg ctx rest of
             (gs, Inl e) \<Rightarrow> (g # gs, Inl e)
           | (gs, Inr ms) \<Rightarrow> (g # gs, Inr (m @ ms))))"

text \<open>\<^verbatim>\<open>metadatas[i]?.image\<close>: the chain stops at \<open>undefined\<close> and at \<open>null\<close>.\<close>

definition optional_image :: "json option \<Rightarrow> json option" where
  "optional_image metadata =
     (case metadata of None \<Rightarrow> None | Some JNull \<Rightarrow> None | Some doc \<Rightarrow> get_member doc ''image'')"

text \<open>The callback of \<^verbatim>\<open>attributes.map\<close>: reading a property of \<open>null\<close> throws.\<close>

definition new_Attribute :: "json \<Rightarrow> exn + Attribute" where
  "new_Attribute a =
     (case a of
        JNull \<Rightarrow> Inl (TypeError ''Cannot read properties of null'')
      | _ \<Rightarrow> Inr \<lparr>traitType = get_member a ''trait_type'', attr_value = get_member a ''value''\<rparr>)"

fun map_attributes :: "json list \<Rightarrow> exn + Attribute list" where
  "map_attributes [] = Inr []"
| "map_attributes (a # as) =
     (case new_Attribute a of
        Inl e \<Rightarrow> Inl e
      | Inr x \<Rightarrow> (case map_attributes as of Inl e \<Rightarrow> Inl e | Inr xs \<Rightarrow> Inr (x # xs)))"

text \<open>\<^verbatim>\<open>metadatas[i]?.attributes.map(...)\<close>: only \<^verbatim>\<open>metadatas[i]\<close> is guarded, so
  \<^verbatim>\<open>map\<close> is called on whatever \<^verbatim>\<open>attributes\<close> is, and only an array has it.\<close>

definition optional_attributes :: "json option \<Rightarrow> exn + Attribute list option" where
  "optional_attributes metadata =
     (case metadata of
        None \<Rightarrow> Inr None
      | Some JNull \<Rightarrow> Inr None
      | Some doc \<Rightarrow>
          (case get_member doc ''attributes'' of
             Some (JArr as) \<Rightarrow>
               (case map_attributes as of Inl e \<Rightarrow> Inl e | Inr xs \<Rightarrow> Inr (Some xs))
           | Some _ \<Rightarrow> Inl (TypeError ''attributes.map is not a function'')
           | None \<Rightarrow> Inl (TypeError ''Cannot read properties of undefined'')))"

text \<open>The body of the last loop of \<^verbatim>\<open>initTokens\<close>, on the token it assigns to.\<close>

definition assign_metadata :: "Token \<Rightarrow> string option \<Rightarrow> json option \<Rightarrow> exn + Token" where
  "assign_metadata t u metadata =
     (case optional_attributes metadata of
        Inl e \<Rightarrow> Inl e
      | Inr attrs \<Rightarrow>
          Inr (t\<lparr>token_uri := u, token_image := optional_image metadata, token_attributes := attrs\<rparr>))"

text \<open>The last loop, from index \<open>i\<close> on, over the heap of tokens.\<close>

fun assign_loop :: "ref list \<Rightarrow> nat \<Rightarrow> string list \<Rightarrow> json option list \<Rightarrow> Token list \<Rightarrow> exn + Token list" where
  "assign_loop [] i tokenURIs metadatas heap = Inr heap"
| "assign_loop (r # rs) i tokenURIs metadatas heap =
     (case assign_metadata (heap ! r) (at_index tokenURIs i) (case at_index metadatas i of None \<Rightarrow> None | Some m \<Rightarrow> m) of
        Inl e \<Rightarrow> Inl e
      | Inr t \<Rightarrow> assign_loop rs (Suc i) tokenURIs metadatas (heap[r := t]))"

text \<open>\<^verbatim>\<open>initTokens\<close>: the trace of what it asked for, and the heap of tokens it leaves
  or the value it throws; \<open>None\<close> when it never returns.\<close>

definition initTokens :: "Config \<Rightarrow> Context \<Rightarrow> ref list \<Rightarrow> Token list \<Rightarrow> (InitTrace \<times> (exn + Token list)) option" where
  "initTokens cfg ctx tokens heap =
     (if blocks ctx = [] then
        Some (\<lparr>calls = [], groups = []\<rparr>, Inl (TypeError ''Cannot read properties of undefined''))
      else
        (let block = last (blocks ctx);
             args = map (\<lambda>r. token_index (heap ! r)) tokens
         in case aggregate (tokenURI ctx block) args (MUTLTICALL_BATCH_SIZE cfg) of
              Inl e \<Rightarrow> Some (\<lparr>calls = args, groups = []\<rparr>, Inl e)
            | Inr tokenURIs \<Rightarrow>
                (case splitIntoBatches tokenURIs (MAX_IPFS_REQ_SEC cfg) of
                   None \<Rightarrow> None
                 | Some batches \<Rightarrow>
                     (case run_batches cfg ctx batches of
                        (gs, Inl e) \<Rightarrow> Some (\<lparr>calls = args, groups = gs\<rparr>, Inl e)
                      | (gs, Inr metadatas) \<Rightarrow>
                          Some (\<lparr>calls = args, groups = gs\<rparr>,
                                assign_loop tokens 0 tokenURIs metadatas heap)))))"

section \<open>Resolving the entities of a batch\<close>

text \<open>The state of \<^verbatim>\<open>processTransfers\<close> while it replays the transfers: the two heaps,
  the two maps from id to object, the tokens it constructed, the transfers it built.\<close>

record Resolver =
  owner_heap :: "Owner list"
  token_heap :: "Token list"
  owners :: "(string \<times> ref) list"
  tokens :: "(string \<times> ref) list"
  newTokens :: "ref list"
  transfers :: "Transfer list"

text \<open>The first loop collects the ids.\<close>

definition collect_tokensIds :: "TransferEvent list \<Rightarrow> string list" where
  "collect_tokensIds transfersData =
     fold (\<lambda>transferData ids. Set_add (toString (tokenIndex transferData)) ids) transfersData []"

definition collect_ownersIds :: "TransferEvent list \<Rightarrow> string list" where
  "collect_ownersIds transfersData =
     fold (\<lambda>transferData ids. Set_add (event_to transferData) (Set_add (event_from transferData) ids))
       transfersData []"

text \<open>The two lookups. A row that is found becomes an object of the heap, at the index
  of its position in the result; \<^verbatim>\<open>findBy\<close> is given no relations to load, so the
  \<^verbatim>\<open>owner\<close> of a token that is found is \<open>undefined\<close>.\<close>

definition load_entities :: "Context \<Rightarrow> TransferEvent list \<Rightarrow> Resolver" where
  "load_entities ctx transfersData =
     (let qt = map (\<lambda>t. t\<lparr>token_owner := None\<rparr>)
                 (findBy token_id (collect_tokensIds transfersData) (stored_tokens ctx));
          qo = findBy owner_id (collect_ownersIds transfersData) (stored_owners ctx)
      in \<lparr>owner_heap = qo,
          token_heap = qt,
          owners = Map_of_entries (zip (map owner_id qo) [0 ..< length qo]),
          tokens = Map_of_entries (zip (map token_id qt) [0 ..< length qt]),
          newTokens = [],
          transfers = []\<rparr>)"

text \<open>\<^verbatim>\<open>owners.get(id)\<close>, or a new owner set into the map.\<close>

definition resolve_owner :: "string \<Rightarrow> Resolver \<Rightarrow> ref \<times> Resolver" where
  "resolve_owner ident st =
     (case Map_get (owners st) ident of
        Some r \<Rightarrow> (r, st)
      | None \<Rightarrow>
          (let r = length (owner_heap st)
           in (r, st\<lparr>owner_heap := owner_heap st @ [\<lparr>owner_id = ident\<rparr>],
                     owners := Map_set ident r (owners st)\<rparr>)))"

definition resolve_token :: "TransferEvent \<Rightarrow> Resolver \<Rightarrow> ref \<times> Resolver" where
  "resolve_token transferData st =
     (let tokenId = toString (tokenIndex transferData)
      in case Map_get (tokens st) tokenId of
           Some r \<Rightarrow> (r, st)
         | None \<Rightarrow>
             (let r = length (token_heap st)
              in (r, st\<lparr>token_heap := token_heap st @
                          [\<lparr>token_id = tokenId, token_index = tokenIndex transferData,
                            token_owner = None, token_uri = None, token_image = None,
                            token_attributes = None\<rparr>],
                        tokens := Map_set tokenId r (tokens st),
                        newTokens := newTokens st @ [r]\<rparr>)))"

text \<open>The body of the second loop.\<close>

definition process_transfer :: "TransferEvent \<Rightarrow> Resolver \<Rightarrow> Resolver" where
  "process_transfer transferData st =
     (case resolve_owner (event_from transferData) st of (from_ref, st1) \<Rightarrow>
      case resolve_owner (event_to transferData) st1 of (to_ref, st2) \<Rightarrow>
      case resolve_token transferData st2 of (token_ref, st3) \<Rightarrow>
        st3\<lparr>token_heap := (token_heap st3)[token_ref := (token_heap st3 ! token_ref)\<lparr>token_owner := Some to_ref\<rparr>],
            transfers := transfers st3 @
              [\<lparr>transfer_id = event_id transferData,
                blockNumber = height (event_block transferData),
                transfer_timestamp = timestamp (event_block transferData),
                txHash = hash (event_transaction transferData),
                transfer_from = from_ref,
                transfer_to = to_ref,
                transfer_token = token_ref\<rparr>]\<rparr>)"

text \<open>The entity-resolution pass: everything \<^verbatim>\<open>processTransfers\<close> does before it
  calls \<^verbatim>\<open>initTokens\<close>.\<close>

definition resolve_entities :: "Context \<Rightarrow> TransferEvent list \<Rightarrow> Resolver" where
  "resolve_entities ctx transfersData = fold process_transfer transfersData (load_entities ctx transfersData)"

text \<open>The three \<^verbatim>\<open>upsert\<close> calls, with the entities as they are when flushed.\<close>

record Upserts =
  upsert_owners :: "Owner list"
  upsert_tokens :: "Token list"
  upsert_transfers :: "Transfer list"

definition flush :: "Resolver \<Rightarrow> Upserts" where
  "flush st =
     \<lparr>upsert_owners = map (\<lambda>r. owner_heap st ! r) (Map_values (owners st)),
      upsert_tokens = map (\<lambda>r. token_heap st ! r) (Map_values (tokens st)),
      upsert_transfers = transfers st\<rparr>"

text \<open>\<^verbatim>\<open>processTransfers\<close>: nothing is flushed when \<^verbatim>\<open>initTokens\<close> throws.\<close>

definition processTransfers :: "Config \<Rightarrow> Context \<Rightarrow> TransferEvent list \<Rightarrow> (InitTrace \<times> (exn + Resolver \<times> Upserts)) option" where
  "processTransfers cfg ctx transfersData =
     (let st = resolve_entities ctx transfersData
      in case initTokens cfg ctx (newTokens st) (token_heap st) of
           None \<Rightarrow> None
         | Some (tr, Inl e) \<Rightarrow> Some (tr, Inl e)
         | Some (tr, Inr heap) \<Rightarrow>
             (let st' = st\<lparr>token_heap := heap\<rparr> in Some (tr, Inr (st', flush st'))))"

text \<open>The value of \<^verbatim>\<open>tokenURIs\<close> in the call of \<^verbatim>\<open>initTokens\<close> that
  \<^verbatim>\<open>processTransfers\<close> makes, when the batch has a block.\<close>

definition batch_tokenURIs :: "Config \<Rightarrow> Context \<Rightarrow> TransferEvent list \<Rightarrow> exn + string list" where
  "batch_tokenURIs cfg ctx transfersData =
     aggregate (tokenURI ctx (last (blocks ctx)))
       (map (\<lambda>r. token_index (token_heap (resolve_entities ctx transfersData) ! r))
          (newTokens (resolve_entities ctx transfersData)))
       (MUTLTICALL_BATCH_SIZE cfg)"


section \<open>Invariants of the resolver\<close>

text \<open>A map from id to reference and the heap it points into: every key once, every
  reference inside the heap, at an object that carries the key as its id.\<close>

definition entity_inv :: "('e \<Rightarrow> string) \<Rightarrow> (string \<times> ref) list \<Rightarrow> 'e list \<Rightarrow> bool" where
  "entity_inv ident m heap \<longleftrightarrow>
     distinct (map fst m) \<and> (\<forall>e \<in> set m. snd e < length heap \<and> ident (heap ! snd e) = fst e)"

definition resolver_inv :: "Resolver \<Rightarrow> bool" where
  "resolver_inv st \<longleftrightarrow>
     entity_inv owner_id (owners st) (owner_heap st) \<and>
     entity_inv token_id (tokens st) (token_heap st) \<and>
     distinct (newTokens st) \<and> set (newTokens st) \<subseteq> snd ` set (tokens st)"

text \<open>What holds after the replay of a list of transfers from a state that satisfies the invariant.\<close>

definition replayed :: "Resolver \<Rightarrow> TransferEvent list \<Rightarrow> Resolver \<Rightarrow> bool" where
  "replayed st0 tds st \<longleftrightarrow>
     resolver_inv st
   \<and> fst ` set (owners st) = event_from ` set tds \<union> event_to ` set tds \<union> fst ` set (owners st0)
   \<and> fst ` set (tokens st) = (\<lambda>td. toString (tokenIndex td)) ` set tds \<union> fst ` set (tokens st0)
   \<and> length (transfers st) = length (transfers st0) + length tds
   \<and> (\<forall>k < length tds.
        Map_get (owners st) (event_from (tds ! k)) = Some (transfer_from (transfers st ! (length (transfers st0) + k)))
      \<and> Map_get (owners st) (event_to (tds ! k)) = Some (transfer_to (transfers st ! (length (transfers st0) + k)))
      \<and> Map_get (tokens st) (toString (tokenIndex (tds ! k))) =
            Some (transfer_token (transfers st ! (length (transfers st0) + k))))
   \<and> (\<forall>pre td post. tds = pre @ td # post \<longrightarrow>
        (\<forall>t \<in> set post. toString (tokenIndex t) \<noteq> toString (tokenIndex td)) \<longrightarrow>
        (\<exists>r ow. Map_get (tokens st) (toString (tokenIndex td)) = Some r
              \<and> token_owner (token_heap st ! r) = Some ow
              \<and> Map_get (owners st) (event_to td) = Some ow))
   \<and> (\<exists>new. newTokens st = newTokens st0 @ new
        \<and> (\<forall>r \<in> set new. token_id (token_heap st ! r) \<notin> fst ` set (tokens st0)
                          \<and> token_id (token_heap st ! r) \<in> (\<lambda>td. toString (tokenIndex td)) ` set tds))
   \<and> (\<forall>k r. Map_get (owners st0) k = Some r \<longrightarrow> Map_get (owners st) k = Some r)
   \<and> (\<forall>k r. Map_get (tokens st0) k = Some r \<longrightarrow> Map_get (tokens st) k = Some r)"

section \<open>An example batch\<close>

text \<open>Token 7 and owner \<^verbatim>\<open>0xb\<close> are stored. The contract answers \<^verbatim>\<open>ftp://x\<close> for token 5
  and an HTTPS address for every other token; the document of token 8 has no attributes, that
  of token 4 no image, and the request for token 9 fails.\<close>

definition example_token :: "int \<Rightarrow> Token" where
  "example_token i =
     \<lparr>token_id = toString i, token_index = i, token_owner = None, token_uri = None,
      token_image = None, token_attributes = None\<rparr>"

definition example_document :: json where
  "example_document =
     JObj [(''image'', JStr ''ipfs://img''),
           (''attributes'', JArr [JObj [(''trait_type'', JStr ''Fur''), (''value'', JStr ''Red'')]])]"

definition example_ctx :: Context where
  "example_ctx =
     \<lparr>stored_tokens = [(example_token 7)\<lparr>token_owner := Some 0, token_uri := Some ''https://meta.example/7''\<rparr>],
      stored_owners = [\<lparr>owner_id = ''0xb''\<rparr>],
      blocks = [\<lparr>height = 100, timestamp = 1000\<rparr>],
      tokenURI = (\<lambda>block i. if i = 5 then Some ''ftp://x'' else Some (''https://meta.example/'' @ toString i)),
      client_get = (\<lambda>url.
        if url = ''https://meta.example/9'' then Inl (ClientError ''HttpError: 404'')
        else if url = ''https://meta.example/8'' then Inr (JObj [(''image'', JStr ''ipfs://img'')])
        else if url = ''https://meta.example/4'' then Inr (JObj [(''attributes'', JArr [])])
        else Inr example_document)\<rparr>"

definition example_event :: "string \<Rightarrow> string \<Rightarrow> string \<Rightarrow> int \<Rightarrow> TransferEvent" where
  "example_event i f t k =
     \<lparr>event_id = i, event_block = \<lparr>height = 100, timestamp = 1000\<rparr>,
      event_transaction = \<lparr>hash = ''0xh''\<rparr>, event_from = f, event_to = t, tokenIndex = k\<rparr>"

definition example_batch :: "TransferEvent list" where
  "example_batch =
     [example_event ''t1'' ''0xa'' ''0xb'' 5,
      example_event ''t2'' ''0xb'' ''0xc'' 5,
      example_event ''t3'' ''0xc'' ''0xa'' 7]"

text \<open>The state in which the example batch is flushed.\<close>

definition example_final :: Resolver where
  "example_final =
     \<lparr>owner_heap = [\<lparr>owner_id = ''0xb''\<rparr>, \<lparr>owner_id = ''0xa''\<rparr>, \<lparr>owner_id = ''0xc''\<rparr>],
      token_heap =
        [\<lparr>token_id = ''7'', token_index = 7, token_owner = Some 1,
          token_uri = Some ''https://meta.example/7'', token_image = None, token_attributes = None\<rparr>,
         \<lparr>token_id = ''5'', token_index = 5, token_owner = Some 2,
          token_uri = Some ''ftp://x'', token_image = None, token_attributes = None\<rparr>],
      owners = [(''0xb'', 0), (''0xa'', 1), (''0xc'', 2)],
      tokens = [(''7'', 0), (''5'', 1)],
      newTokens = [1],
      transfers =
        [\<lparr>transfer_id = ''t1'', blockNumber = 100, transfer_timestamp = 1000,
          txHash = ''0xh'', transfer_from = 1, transfer_to = 0, transfer_token = 1\<rparr>,
         \<lparr>transfer_id = ''t2'', blockNumber = 100, transfer_timestamp = 1000,
          txHash = ''0xh'', transfer_from = 0, transfer_to = 2, transfer_token = 1\<rparr>,
         \<lparr>transfer_id = ''t3'', blockNumber = 100, transfer_timestamp = 1000,
          txHash = ''0xh'', transfer_from = 2, transfer_to = 1, transfer_token = 0\<rparr>]\<rparr>"

text \<open>The configuration of \<^verbatim>\<open>main.ts\<close> with two requests per second, and a batch of five new
  tokens whose second fetch fails.\<close>

definition example_paced :: Config where
  "example_paced = main_config\<lparr>MAX_IPFS_REQ_SEC := 2\<rparr>"

definition example_failing_batch :: "TransferEvent list" where
  "example_failing_batch =
     [example_event ''f1'' ''0xa'' ''0xb'' 6, example_event ''f2'' ''0xa'' ''0xb'' 9,
      example_event ''f3'' ''0xa'' ''0xb'' 10, example_event ''f4'' ''0xa'' ''0xb'' 11,
      example_event ''f5'' ''0xa'' ''0xb'' 12]"

text \<open>A batch of five new tokens whose fetches all succeed.\<close>

definition example_paced_batch :: "TransferEvent list" where
  "example_paced_batch =
     [example_event ''p1'' ''0xa'' ''0xb'' 6, example_event ''p2'' ''0xa'' ''0xb'' 10,
      example_event ''p3'' ''0xa'' ''0xb'' 11, example_event ''p4'' ''0xa'' ''0xb'' 12,
      example_event ''p5'' ''0xa'' ''0xb'' 13]"

section \<open>Properties of the utility functions\<close>

lemma batches_from_unfold_more:
  "length list > offset + maxBatchSize \<Longrightarrow>
   batches_from list maxBatchSize offset =
     Option.bind (batches_from list maxBatchSize (offset + maxBatchSize))
       (\<lambda>rest. Some (slice list offset (offset + maxBatchSize) # rest))"
  by (subst batches_from.simps) simp

lemma batches_from_unfold_last:
  "length list \<le> offset + maxBatchSize \<Longrightarrow>
   batches_from list maxBatchSize offset = Some [drop offset list]"
  by (subst batches_from.simps) simp

lemma batches_from_partition:
  assumes "0 < m"
  shows "\<exists>bs. batches_from xs m offset = Some bs \<and> bs \<noteq> [] \<and> concat bs = drop offset xs
            \<and> (\<forall>b \<in> set bs. length b \<le> m)
            \<and> (\<forall>i. Suc i < length bs \<longrightarrow> length (bs ! i) = m)"
proof (induction "length xs - offset" arbitrary: offset rule: less_induct)
  case less
  show ?case
  proof (cases "length xs > offset + m")
    case False
    then have "batches_from xs m offset = Some [drop offset xs]"
      by (simp add: batches_from_unfold_last)
    with False show ?thesis by simp
  next
    case True
    with assms have "length xs - (offset + m) < length xs - offset" by arith
    from less[OF this] obtain rest where
      rest: "batches_from xs m (offset + m) = Some rest" "rest \<noteq> []"
        "concat rest = drop (offset + m) xs" "\<forall>b \<in> set rest. length b \<le> m"
        "\<forall>i. Suc i < length rest \<longrightarrow> length (rest ! i) = m"
      by blast
    let ?b = "slice xs offset (offset + m)"
    have eq: "batches_from xs m offset = Some (?b # rest)"
      using True rest(1) by (simp add: batches_from_unfold_more)
    have len: "length ?b = m" using True by (simp add: slice_def)
    have "?b @ drop (offset + m) xs = drop offset xs"
      by (simp add: slice_def add.commute flip: drop_drop)
    then have cc: "concat (?b # rest) = drop offset xs" using rest(3) by simp
    have nth: "\<forall>i. Suc i < length (?b # rest) \<longrightarrow> length ((?b # rest) ! i) = m"
    proof (intro allI impI)
      fix i assume "Suc i < length (?b # rest)"
      then show "length ((?b # rest) ! i) = m"
        using len rest(5) by (cases i) auto
    qed
    show ?thesis using eq cc len rest(4) nth by auto
  qed
qed

lemma splitIntoBatches_12_5:
  assumes "length ys = 12"
  shows "\<exists>cs. splitIntoBatches ys 5 = Some cs \<and> map length cs = [5, 5, 2]"
proof -
  have "batches_from ys 5 10 = Some [drop 10 ys]"
    using assms by (simp add: batches_from_unfold_last)
  then have "batches_from ys 5 5 = Some [slice ys 5 10, drop 10 ys]"
    using assms batches_from_unfold_more[of 5 5 ys] by simp
  then have "batches_from ys 5 0 = Some [slice ys 0 5, slice ys 5 10, drop 10 ys]"
    using assms batches_from_unfold_more[of 0 5 ys] by simp
  then show ?thesis using assms by (simp add: splitIntoBatches_def slice_def)
qed

text \<open>Claim C4. For every list and every \<open>maxBatchSize \<ge> 1\<close>, \<^verbatim>\<open>splitIntoBatches\<close>
  finishes and yields consecutive chunks whose concatenation is the list, each of at most
  \<open>maxBatchSize\<close> elements and each but the last of exactly \<open>maxBatchSize\<close>; a list of
  12 elements with \<open>maxBatchSize = 5\<close> yields three chunks of sizes 5, 5 and 2.\<close>

theorem splitIntoBatches_partition:
  assumes "1 \<le> maxBatchSize"
  shows "(\<exists>bs. splitIntoBatches xs maxBatchSize = Some bs \<and> concat bs = xs
            \<and> (\<forall>b \<in> set bs. length b \<le> maxBatchSize)
            \<and> (\<forall>i. Suc i < length bs \<longrightarrow> length (bs ! i) = maxBatchSize))
       \<and> (length ys = 12 \<longrightarrow> (\<exists>cs. splitIntoBatches ys 5 = Some cs \<and> map length cs = [5, 5, 2]))"
proof (intro conjI impI)
  show "\<exists>bs. splitIntoBatches xs maxBatchSize = Some bs \<and> concat bs = xs
            \<and> (\<forall>b \<in> set bs. length b \<le> maxBatchSize)
            \<and> (\<forall>i. Suc i < length bs \<longrightarrow> length (bs ! i) = maxBatchSize)"
  proof (cases "length xs \<le> maxBatchSize")
    case True
    then show ?thesis by (simp add: splitIntoBatches_def)
  next
    case False
    from assms have "0 < maxBatchSize" by simp
    from batches_from_partition[OF this, of xs 0] False show ?thesis
      by (auto simp: splitIntoBatches_def)
  qed
next
  assume "length ys = 12"
  then show "\<exists>cs. splitIntoBatches ys 5 = Some cs \<and> map length cs = [5, 5, 2]"
    by (rule splitIntoBatches_12_5)
qed

text \<open>The twelve-element list of the scenario, at \<open>maxBatchSize = 5\<close>.\<close>

theorem splitIntoBatches_partition_witness:
  "(1::nat) \<le> 5 \<and> length [1::nat, 2, 3, 4, 5, 6, 7, 8, 9, 10, 11, 12] = 12
   \<and> (\<exists>bs. splitIntoBatches [1::nat, 2, 3, 4, 5, 6, 7, 8, 9, 10, 11, 12] 5 = Some bs
         \<and> concat bs = [1, 2, 3, 4, 5, 6, 7, 8, 9, 10, 11, 12]
         \<and> (\<forall>b \<in> set bs. length b \<le> 5)
         \<and> (\<forall>i. Suc i < length bs \<longrightarrow> length (bs ! i) = 5))
   \<and> (\<exists>cs. splitIntoBatches [1::nat, 2, 3, 4, 5, 6, 7, 8, 9, 10, 11, 12] 5 = Some cs
         \<and> map length cs = [5, 5, 2])"
  using splitIntoBatches_partition[of 5 "[1::nat, 2, 3, 4, 5, 6, 7, 8, 9, 10, 11, 12]"
      "[1::nat, 2, 3, 4, 5, 6, 7, 8, 9, 10, 11, 12]"]
  by simp

section \<open>Joining promises, aggregation and the loops of \<^verbatim>\<open>initTokens\<close>\<close>

lemma Promise_all_map_Inr: "Promise_all (map Inr vs) = Inr vs"
  by (induction vs) auto

lemma Promise_all_Inr_D: "Promise_all ps = Inr vs \<Longrightarrow> ps = map Inr vs"
proof (induction ps arbitrary: vs)
  case Nil
  then show ?case by auto
next
  case (Cons p ps)
  then show ?case by (cases p) (auto split: sum.splits)
qed

lemma Promise_all_Inr: "Promise_all ps = Inr vs \<longleftrightarrow> ps = map Inr vs"
  using Promise_all_Inr_D Promise_all_map_Inr by blast

lemma Promise_all_Inl: "Promise_all ps = Inl e \<Longrightarrow> Inl e \<in> set ps"
proof (induction ps)
  case Nil
  then show ?case by simp
next
  case (Cons p ps)
  then show ?case by (cases p) (auto split: sum.splits)
qed

lemma run_group_Inr:
  "snd (run_group cfg ctx batch) = Inr m \<longleftrightarrow> map (\<lambda>u. fst (fetchTokenMetadata cfg ctx u)) batch = map Inr m"
  by (simp add: run_group_def Promise_all_Inr comp_def)

lemma run_group_Inl:
  "snd (run_group cfg ctx batch) = Inl e \<Longrightarrow> \<exists>u \<in> set batch. fst (fetchTokenMetadata cfg ctx u) = Inl e"
proof -
  assume "snd (run_group cfg ctx batch) = Inl e"
  then have "Inl e \<in> set (map fst (map (fetchTokenMetadata cfg ctx) batch))"
    by (auto simp: run_group_def dest: Promise_all_Inl)
  then show ?thesis by force
qed

lemma run_batches_Inr:
  "snd (run_batches cfg ctx bs) = Inr ms \<Longrightarrow>
   map (\<lambda>u. fst (fetchTokenMetadata cfg ctx u)) (concat bs) = map Inr ms"
proof (induction bs arbitrary: ms)
  case Nil
  then show ?case by simp
next
  case (Cons b bs)
  obtain g r where g: "run_group cfg ctx b = (g, r)" by (cases "run_group cfg ctx b")
  obtain gs r' where gs: "run_batches cfg ctx bs = (gs, r')" by (cases "run_batches cfg ctx bs")
  from Cons.prems g gs obtain m ms' where m: "r = Inr m" "r' = Inr ms'" "ms = m @ ms'"
    by (auto split: sum.splits)
  from g m have "map (\<lambda>u. fst (fetchTokenMetadata cfg ctx u)) b = map Inr m"
    using run_group_Inr[of cfg ctx b m] by simp
  moreover from Cons.IH[of ms'] gs m
  have "map (\<lambda>u. fst (fetchTokenMetadata cfg ctx u)) (concat bs) = map Inr ms'" by simp
  ultimately show ?case using m by simp
qed


lemma aggregate_calls_Inr:
  "aggregate_calls call args = Inr us \<Longrightarrow> map call args = map Some us"
proof (induction args arbitrary: us)
  case Nil
  then show ?case by simp
next
  case (Cons a as)
  then show ?case by (auto split: option.splits sum.splits)
qed

lemma aggregate_Inr_length:
  "aggregate call args n = Inr us \<Longrightarrow> length us = length args"
  unfolding aggregate_def by (drule aggregate_calls_Inr) (metis length_map)

lemma slice_append_drop: "slice xs off (off + m) @ drop (off + m) xs = drop off xs"
  by (simp add: slice_def add.commute flip: drop_drop)

lemma batches_from_concat:
  assumes "batches_from xs m off = Some bs"
  shows "concat bs = drop off xs"
proof (rule batches_from.raw_induct[where P = "\<lambda>xs m off bs. concat bs = drop off xs", OF _ assms])
  fix f :: "'a list \<Rightarrow> nat \<Rightarrow> nat \<Rightarrow> 'a list list option" and xs m off bs
  assume ih: "\<And>xs m off bs. f xs m off = Some bs \<Longrightarrow> concat bs = drop off xs"
    and eq: "(if int m < int (length xs) - int off
              then Option.bind (f xs m (off + m)) (\<lambda>rest. Some (slice xs off (off + m) # rest))
              else Some [drop off xs]) = Some bs"
  show "concat bs = drop off xs"
  proof (cases "int m < int (length xs) - int off")
    case False
    with eq show ?thesis by auto
  next
    case True
    with eq obtain rest where r: "f xs m (off + m) = Some rest" "bs = slice xs off (off + m) # rest"
      by (auto simp: bind_eq_Some_conv)
    from ih[OF r(1)] have "concat rest = drop (off + m) xs" .
    then show ?thesis using r(2) slice_append_drop[of xs off m] by simp
  qed
qed

lemma splitIntoBatches_concat:
  "splitIntoBatches xs m = Some bs \<Longrightarrow> concat bs = xs"
  by (auto simp: splitIntoBatches_def split: if_splits dest: batches_from_concat)

lemma assign_loop_Inr:
  assumes "assign_loop rs i uris mds heap = Inr heap'" "distinct rs" "\<forall>r \<in> set rs. r < length heap"
  shows "length heap' = length heap
       \<and> (\<forall>k < length rs.
            assign_metadata (heap ! (rs ! k)) (at_index uris (i + k))
              (case at_index mds (i + k) of None \<Rightarrow> None | Some m \<Rightarrow> m) = Inr (heap' ! (rs ! k)))
       \<and> (\<forall>r. r \<notin> set rs \<longrightarrow> heap' ! r = heap ! r)"
  using assms
proof (induction rs arbitrary: i heap)
  case Nil
  then show ?case by simp
next
  case (Cons r rs)
  from Cons.prems(1) obtain t where
    t: "assign_metadata (heap ! r) (at_index uris i) (case at_index mds i of None \<Rightarrow> None | Some m \<Rightarrow> m) = Inr t"
    and rest: "assign_loop rs (Suc i) uris mds (heap[r := t]) = Inr heap'"
    by (auto split: sum.splits)
  from Cons.prems have d: "distinct rs" "r \<notin> set rs" "r < length heap"
    and b: "\<forall>r' \<in> set rs. r' < length (heap[r := t])" by auto
  from Cons.IH[OF rest d(1) b] have
    ih1: "length heap' = length heap"
    and ih2: "\<forall>k < length rs. assign_metadata (heap[r := t] ! (rs ! k)) (at_index uris (Suc i + k))
              (case at_index mds (Suc i + k) of None \<Rightarrow> None | Some m \<Rightarrow> m) = Inr (heap' ! (rs ! k))"
    and ih3: "\<forall>r'. r' \<notin> set rs \<longrightarrow> heap' ! r' = heap[r := t] ! r'"
    by auto
  have "heap' ! r = t" using ih3 d by simp
  have step: "\<forall>k < length (r # rs).
            assign_metadata (heap ! ((r # rs) ! k)) (at_index uris (i + k))
              (case at_index mds (i + k) of None \<Rightarrow> None | Some m \<Rightarrow> m) = Inr (heap' ! ((r # rs) ! k))"
  proof (intro allI impI)
    fix k assume k: "k < length (r # rs)"
    show "assign_metadata (heap ! ((r # rs) ! k)) (at_index uris (i + k))
              (case at_index mds (i + k) of None \<Rightarrow> None | Some m \<Rightarrow> m) = Inr (heap' ! ((r # rs) ! k))"
    proof (cases k)
      case 0
      then show ?thesis using t \<open>heap' ! r = t\<close> by simp
    next
      case (Suc j)
      with k have j: "j < length rs" by simp
      then have "rs ! j \<noteq> r" using d(2) by (metis nth_mem)
      then have same: "heap[r := t] ! (rs ! j) = heap ! (rs ! j)" by simp
      from ih2 j have "assign_metadata (heap[r := t] ! (rs ! j)) (at_index uris (Suc i + j))
              (case at_index mds (Suc i + j) of None \<Rightarrow> None | Some m \<Rightarrow> m) = Inr (heap' ! (rs ! j))"
        by blast
      then show ?thesis unfolding same using Suc by simp
    qed
  qed
  have frame: "\<forall>r'. r' \<notin> set (r # rs) \<longrightarrow> heap' ! r' = heap ! r'"
    using ih3 by auto
  show ?case using ih1 step frame by blast
qed

lemma initTokens_Inr:
  assumes "initTokens cfg ctx toks heap = Some (tr, Inr heap')"
  shows "blocks ctx \<noteq> [] \<and>
    (\<exists>uris batches mds.
       aggregate (tokenURI ctx (last (blocks ctx))) (map (\<lambda>r. token_index (heap ! r)) toks)
         (MUTLTICALL_BATCH_SIZE cfg) = Inr uris
     \<and> splitIntoBatches uris (MAX_IPFS_REQ_SEC cfg) = Some batches
     \<and> run_batches cfg ctx batches = (groups tr, Inr mds)
     \<and> assign_loop toks 0 uris mds heap = Inr heap'
     \<and> calls tr = map (\<lambda>r. token_index (heap ! r)) toks)"
  using assms
  by (auto simp: initTokens_def Let_def split: if_splits sum.splits option.splits prod.splits)

section \<open>Maps from ids to objects\<close>

lemma Map_set_fresh: "k \<notin> fst ` set m \<Longrightarrow> Map_set k v m = m @ [(k, v)]"
  by (induction m) auto

lemma Map_set_keys: "fst ` set (Map_set k v m) = insert k (fst ` set m)"
  by (induction m) auto

lemma Map_set_entries: "set (Map_set k v m) \<subseteq> insert (k, v) (set m)"
  by (induction m) auto

lemma Map_set_distinct: "distinct (map fst m) \<Longrightarrow> distinct (map fst (Map_set k v m))"
proof (induction m)
  case Nil
  then show ?case by simp
next
  case (Cons e m)
  then show ?case using Map_set_keys[of k v m] by (auto simp: image_iff)
qed

lemma Map_get_None: "Map_get m k = None \<longleftrightarrow> k \<notin> fst ` set m"
  by (simp add: Map_get_def map_of_eq_None_iff)

lemma Map_get_Some: "distinct (map fst m) \<Longrightarrow> Map_get m k = Some r \<longleftrightarrow> (k, r) \<in> set m"
  by (simp add: Map_get_def)

lemma Map_of_entries_snoc:
  "Map_of_entries (es @ [e]) = Map_set (fst e) (snd e) (Map_of_entries es)"
  by (simp add: Map_of_entries_def)

lemma entity_inv_Some:
  "entity_inv ident m heap \<Longrightarrow> Map_get m k = Some r \<Longrightarrow> r < length heap \<and> ident (heap ! r) = k"
  by (auto simp: entity_inv_def Map_get_Some)

lemma entity_inv_inj:
  "entity_inv ident m heap \<Longrightarrow> Map_get m k = Some r \<Longrightarrow> Map_get m k' = Some r \<Longrightarrow> k = k'"
  by (metis entity_inv_Some)

lemma entity_inv_alloc:
  assumes "entity_inv ident m heap" "Map_get m k = None" "ident x = k"
  shows "entity_inv ident (Map_set k (length heap) m) (heap @ [x])"
proof -
  from assms(2) have fresh: "k \<notin> fst ` set m" by (simp add: Map_get_None)
  then have eq: "Map_set k (length heap) m = m @ [(k, length heap)]" by (rule Map_set_fresh)
  show ?thesis
    unfolding eq using assms(1,3) fresh
    by (auto simp: entity_inv_def nth_append)
qed

lemma entity_inv_update:
  assumes "entity_inv ident m heap" "ident x = ident (heap ! r)"
  shows "entity_inv ident m (heap[r := x])"
proof -
  have "ident (heap[r := x] ! j) = ident (heap ! j)" if "j < length heap" for j
    using that assms(2) by (cases "j = r") auto
  then show ?thesis using assms(1) by (simp add: entity_inv_def)
qed

lemma entity_inv_load:
  "entity_inv ident (Map_of_entries (zip (map ident q) [0 ..< length q])) q
   \<and> fst ` set (Map_of_entries (zip (map ident q) [0 ..< length q])) = ident ` set q"
proof (induction q rule: rev_induct)
  case Nil
  then show ?case by (simp add: entity_inv_def Map_of_entries_def)
next
  case (snoc x q)
  let ?m = "Map_of_entries (zip (map ident q) [0 ..< length q])"
  have z: "zip (map ident (q @ [x])) [0 ..< length (q @ [x])] =
           zip (map ident q) [0 ..< length q] @ [(ident x, length q)]"
    by simp
  have m': "Map_of_entries (zip (map ident (q @ [x])) [0 ..< length (q @ [x])]) =
            Map_set (ident x) (length q) ?m"
    unfolding z by (simp add: Map_of_entries_snoc)
  from snoc have inv: "entity_inv ident ?m q" and keys: "fst ` set ?m = ident ` set q" by auto
  have d: "distinct (map fst (Map_set (ident x) (length q) ?m))"
    using inv by (simp add: entity_inv_def Map_set_distinct)
  have e: "\<forall>e \<in> set (Map_set (ident x) (length q) ?m).
             snd e < length (q @ [x]) \<and> ident ((q @ [x]) ! snd e) = fst e"
  proof
    fix e assume "e \<in> set (Map_set (ident x) (length q) ?m)"
    then have "e = (ident x, length q) \<or> e \<in> set ?m"
      using Map_set_entries[of "ident x" "length q" ?m] by auto
    then show "snd e < length (q @ [x]) \<and> ident ((q @ [x]) ! snd e) = fst e"
      using inv by (auto simp: entity_inv_def nth_append)
  qed
  show ?case
    unfolding m' using d e keys by (simp add: entity_inv_def Map_set_keys)
qed

section \<open>The replay of the transfers\<close>

lemma Map_get_append_fresh:
  "k \<notin> fst ` set m \<Longrightarrow> Map_get (m @ [(k, v)]) k' = (if k' = k then Some v else Map_get m k')"
  by (induction m) (auto simp: Map_get_def)

lemma resolve_owner_effect:
  assumes "resolver_inv st" "resolve_owner k st = (r, st')"
  shows "resolver_inv st' \<and> Map_get (owners st') k = Some r
    \<and> (\<forall>k' r'. Map_get (owners st) k' = Some r' \<longrightarrow> Map_get (owners st') k' = Some r')
    \<and> fst ` set (owners st') = insert k (fst ` set (owners st))
    \<and> token_heap st' = token_heap st \<and> tokens st' = tokens st
    \<and> newTokens st' = newTokens st \<and> transfers st' = transfers st"
proof (cases "Map_get (owners st) k")
  case None
  have inv: "entity_inv owner_id (owners st) (owner_heap st)"
    using assms(1) by (simp add: resolver_inv_def)
  from None have st': "st' = st\<lparr>owner_heap := owner_heap st @ [\<lparr>owner_id = k\<rparr>],
                    owners := Map_set k (length (owner_heap st)) (owners st)\<rparr>"
    and r: "r = length (owner_heap st)"
    using assms(2) by (auto simp: resolve_owner_def Let_def)
  from None have fresh: "k \<notin> fst ` set (owners st)" by (simp add: Map_get_None)
  have own: "owners st' = owners st @ [(k, r)]"
    unfolding st' r by (simp add: Map_set_fresh[OF fresh])
  have inv': "entity_inv owner_id (owners st') (owner_heap st')"
    unfolding st' using entity_inv_alloc[OF inv None, of "\<lparr>owner_id = k\<rparr>"] by simp
  have get: "Map_get (owners st') k = Some r"
    unfolding own by (simp add: Map_get_append_fresh[OF fresh])
  have mono: "\<forall>k' r'. Map_get (owners st) k' = Some r' \<longrightarrow> Map_get (owners st') k' = Some r'"
    unfolding own using None by (auto simp: Map_get_append_fresh[OF fresh])
  have keys: "fst ` set (owners st') = insert k (fst ` set (owners st))"
    unfolding own by auto
  have rest: "token_heap st' = token_heap st \<and> tokens st' = tokens st
    \<and> newTokens st' = newTokens st \<and> transfers st' = transfers st"
    by (simp add: st')
  have "resolver_inv st'"
    using inv' assms(1) rest by (simp add: resolver_inv_def)
  then show ?thesis using get mono keys rest by blast
next
  case (Some r0)
  then have "st' = st" "r = r0" using assms(2) by (auto simp: resolve_owner_def)
  moreover have "k \<in> fst ` set (owners st)"
    using Some Map_get_None[of "owners st" k] by auto
  ultimately show ?thesis using Some assms(1) by auto
qed

lemma resolve_token_effect:
  assumes "resolver_inv st" "resolve_token td st = (r, st')"
  shows "resolver_inv st' \<and> Map_get (tokens st') (toString (tokenIndex td)) = Some r
    \<and> (\<forall>k' r'. Map_get (tokens st) k' = Some r' \<longrightarrow> Map_get (tokens st') k' = Some r')
    \<and> (\<forall>k' r'. Map_get (tokens st') k' = Some r' \<longrightarrow> k' \<noteq> toString (tokenIndex td) \<longrightarrow>
          Map_get (tokens st) k' = Some r')
    \<and> fst ` set (tokens st') = insert (toString (tokenIndex td)) (fst ` set (tokens st))
    \<and> owner_heap st' = owner_heap st \<and> owners st' = owners st
    \<and> transfers st' = transfers st
    \<and> length (token_heap st) \<le> length (token_heap st')
    \<and> (\<forall>j < length (token_heap st). token_heap st' ! j = token_heap st ! j)
    \<and> (case Map_get (tokens st) (toString (tokenIndex td)) of
          Some r0 \<Rightarrow> newTokens st' = newTokens st \<and> token_heap st' = token_heap st
        | None \<Rightarrow> newTokens st' = newTokens st @ [r] \<and> r = length (token_heap st) \<and>
            token_heap st' = token_heap st @
              [\<lparr>token_id = toString (tokenIndex td), token_index = tokenIndex td,
                token_owner = None, token_uri = None, token_image = None,
                token_attributes = None\<rparr>])"
proof (cases "Map_get (tokens st) (toString (tokenIndex td))")
  case None
  let ?k = "toString (tokenIndex td)"
  let ?t = "\<lparr>token_id = ?k, token_index = tokenIndex td,
                token_owner = None, token_uri = None, token_image = None,
                token_attributes = None\<rparr>"
  have inv: "entity_inv token_id (tokens st) (token_heap st)"
    using assms(1) by (simp add: resolver_inv_def)
  from None have st': "st' = st\<lparr>token_heap := token_heap st @ [?t],
                    tokens := Map_set ?k (length (token_heap st)) (tokens st),
                    newTokens := newTokens st @ [length (token_heap st)]\<rparr>"
    and r: "r = length (token_heap st)"
    using assms(2) by (auto simp: resolve_token_def Let_def)
  from None have fresh: "?k \<notin> fst ` set (tokens st)" by (simp add: Map_get_None)
  have tok: "tokens st' = tokens st @ [(?k, r)]"
    unfolding st' r by (simp add: Map_set_fresh[OF fresh])
  have inv': "entity_inv token_id (tokens st') (token_heap st')"
    unfolding st' using entity_inv_alloc[OF inv None, of ?t] by simp
  have get: "Map_get (tokens st') ?k = Some r"
    unfolding tok by (simp add: Map_get_append_fresh[OF fresh])
  have mono: "\<forall>k' r'. Map_get (tokens st) k' = Some r' \<longrightarrow> Map_get (tokens st') k' = Some r'"
    unfolding tok using None by (auto simp: Map_get_append_fresh[OF fresh])
  have bwd: "\<forall>k' r'. Map_get (tokens st') k' = Some r' \<longrightarrow> k' \<noteq> ?k \<longrightarrow> Map_get (tokens st) k' = Some r'"
    unfolding tok by (auto simp: Map_get_append_fresh[OF fresh])
  have keys: "fst ` set (tokens st') = insert ?k (fst ` set (tokens st))"
    unfolding tok by auto
  have rest: "owner_heap st' = owner_heap st \<and> owners st' = owners st \<and> transfers st' = transfers st
     \<and> newTokens st' = newTokens st @ [r] \<and> token_heap st' = token_heap st @ [?t]"
    by (simp add: st' r)
  have old: "\<forall>e \<in> set (tokens st). snd e < length (token_heap st)"
    using inv by (simp add: entity_inv_def)
  have new_d: "distinct (newTokens st')"
  proof -
    have "r \<notin> snd ` set (tokens st)" using old r by auto
    then have "r \<notin> set (newTokens st)" using assms(1) by (auto simp: resolver_inv_def)
    then show ?thesis using assms(1) rest by (simp add: resolver_inv_def)
  qed
  have new_s: "set (newTokens st') \<subseteq> snd ` set (tokens st')"
    using assms(1) rest tok by (auto simp: resolver_inv_def)
  have rinv: "resolver_inv st'"
    using inv' assms(1) rest new_d new_s by (simp add: resolver_inv_def)
  have pre: "\<forall>j < length (token_heap st). token_heap st' ! j = token_heap st ! j"
    using rest by (simp add: nth_append)
  have len: "length (token_heap st) \<le> length (token_heap st')"
    using rest by simp
  have cs: "(case Map_get (tokens st) ?k of
          Some r0 \<Rightarrow> newTokens st' = newTokens st \<and> token_heap st' = token_heap st
        | None \<Rightarrow> newTokens st' = newTokens st @ [r] \<and> r = length (token_heap st) \<and>
            token_heap st' = token_heap st @ [?t])"
    unfolding None using rest r by simp
  from rest have r1: "owner_heap st' = owner_heap st" and r2: "owners st' = owners st"
    and r3: "transfers st' = transfers st" by simp_all
  show ?thesis
    by (intro conjI) (rule rinv get mono bwd keys r1 r2 r3 len pre cs)+
next
  case (Some r0)
  then have same: "st' = st" and rr: "r = r0"
    using assms(2) by (auto simp: resolve_token_def Let_def)
  have keys: "fst ` set (tokens st) = insert (toString (tokenIndex td)) (fst ` set (tokens st))"
    using Some Map_get_None[of "tokens st" "toString (tokenIndex td)"] by auto
  have cs: "(case Map_get (tokens st) (toString (tokenIndex td)) of
          Some r0 \<Rightarrow> newTokens st = newTokens st \<and> token_heap st = token_heap st
        | None \<Rightarrow> newTokens st = newTokens st @ [r0] \<and> r0 = length (token_heap st) \<and>
            token_heap st = token_heap st @
              [\<lparr>token_id = toString (tokenIndex td), token_index = tokenIndex td,
                token_owner = None, token_uri = None, token_image = None,
                token_attributes = None\<rparr>])"
    unfolding Some by simp
  show ?thesis
    unfolding same rr
    by (intro conjI allI impI) (rule assms(1) Some keys cs refl order_refl | assumption)+
qed

lemma resolver_inv_owner_update:
  assumes "resolver_inv st" "r < length (token_heap st)"
  shows "resolver_inv (st\<lparr>token_heap := (token_heap st)[r := (token_heap st ! r)\<lparr>token_owner := x\<rparr>],
                           transfers := ts\<rparr>)"
proof -
  have "entity_inv token_id (tokens st) ((token_heap st)[r := (token_heap st ! r)\<lparr>token_owner := x\<rparr>])"
    using assms(1) by (intro entity_inv_update) (simp_all add: resolver_inv_def)
  then show ?thesis using assms(1) by (simp add: resolver_inv_def)
qed

lemma resolve_owner_facts:
  assumes "resolver_inv st" "resolve_owner k st = (r, st')"
  shows "resolver_inv st'"
    and "Map_get (owners st') k = Some r"
    and "\<And>k' r'. Map_get (owners st) k' = Some r' \<Longrightarrow> Map_get (owners st') k' = Some r'"
    and "fst ` set (owners st') = insert k (fst ` set (owners st))"
    and "token_heap st' = token_heap st" and "tokens st' = tokens st"
    and "newTokens st' = newTokens st" and "transfers st' = transfers st"
  using resolve_owner_effect[OF assms] by blast+

lemma resolve_token_facts:
  assumes "resolver_inv st" "resolve_token td st = (r, st')"
  shows "resolver_inv st'"
    and "Map_get (tokens st') (toString (tokenIndex td)) = Some r"
    and "\<And>k' r'. Map_get (tokens st) k' = Some r' \<Longrightarrow> Map_get (tokens st') k' = Some r'"
    and "\<And>k' r'. Map_get (tokens st') k' = Some r' \<Longrightarrow> k' \<noteq> toString (tokenIndex td) \<Longrightarrow>
          Map_get (tokens st) k' = Some r'"
    and "fst ` set (tokens st') = insert (toString (tokenIndex td)) (fst ` set (tokens st))"
    and "owner_heap st' = owner_heap st" and "owners st' = owners st"
    and "transfers st' = transfers st"
    and "length (token_heap st) \<le> length (token_heap st')"
    and "\<And>j. j < length (token_heap st) \<Longrightarrow> token_heap st' ! j = token_heap st ! j"
    and "Map_get (tokens st) (toString (tokenIndex td)) = None \<Longrightarrow>
          newTokens st' = newTokens st @ [r] \<and> r = length (token_heap st) \<and>
            token_heap st' = token_heap st @
              [\<lparr>token_id = toString (tokenIndex td), token_index = tokenIndex td,
                token_owner = None, token_uri = None, token_image = None,
                token_attributes = None\<rparr>]"
    and "Map_get (tokens st) (toString (tokenIndex td)) \<noteq> None \<Longrightarrow>
          newTokens st' = newTokens st \<and> token_heap st' = token_heap st"
proof -
  note e = resolve_token_effect[OF assms]
  show "resolver_inv st'" using e by blast
  show "Map_get (tokens st') (toString (tokenIndex td)) = Some r" using e by blast
  show "\<And>k' r'. Map_get (tokens st) k' = Some r' \<Longrightarrow> Map_get (tokens st') k' = Some r'"
    using e by blast
  show "\<And>k' r'. Map_get (tokens st') k' = Some r' \<Longrightarrow> k' \<noteq> toString (tokenIndex td) \<Longrightarrow>
          Map_get (tokens st) k' = Some r'" using e by blast
  show "fst ` set (tokens st') = insert (toString (tokenIndex td)) (fst ` set (tokens st))"
    using e by blast
  show "owner_heap st' = owner_heap st" using e by blast
  show "owners st' = owners st" using e by blast
  show "transfers st' = transfers st" using e by blast
  show "length (token_heap st) \<le> length (token_heap st')" using e by blast
  show "\<And>j. j < length (token_heap st) \<Longrightarrow> token_heap st' ! j = token_heap st ! j"
    using e by blast
  from e have cs: "(case Map_get (tokens st) (toString (tokenIndex td)) of
          Some r0 \<Rightarrow> newTokens st' = newTokens st \<and> token_heap st' = token_heap st
        | None \<Rightarrow> newTokens st' = newTokens st @ [r] \<and> r = length (token_heap st) \<and>
            token_heap st' = token_heap st @
              [\<lparr>token_id = toString (tokenIndex td), token_index = tokenIndex td,
                token_owner = None, token_uri = None, token_image = None,
                token_attributes = None\<rparr>])" by blast
  show "Map_get (tokens st) (toString (tokenIndex td)) = None \<Longrightarrow>
          newTokens st' = newTokens st @ [r] \<and> r = length (token_heap st) \<and>
            token_heap st' = token_heap st @
              [\<lparr>token_id = toString (tokenIndex td), token_index = tokenIndex td,
                token_owner = None, token_uri = None, token_image = None,
                token_attributes = None\<rparr>]"
    using cs by simp
  show "Map_get (tokens st) (toString (tokenIndex td)) \<noteq> None \<Longrightarrow>
          newTokens st' = newTokens st \<and> token_heap st' = token_heap st"
    using cs by (auto split: option.splits)
qed

lemma process_transfer_effect:
  fixes td :: TransferEvent and st :: Resolver
  assumes inv: "resolver_inv st"
  defines "st' \<equiv> process_transfer td st"
  defines "tid \<equiv> toString (tokenIndex td)"
  shows "\<exists>fr to tk.
      resolver_inv st'
    \<and> Map_get (owners st') (event_from td) = Some fr
    \<and> Map_get (owners st') (event_to td) = Some to
    \<and> Map_get (tokens st') tid = Some tk
    \<and> transfers st' = transfers st @
         [\<lparr>transfer_id = event_id td, blockNumber = height (event_block td),
           transfer_timestamp = timestamp (event_block td), txHash = hash (event_transaction td),
           transfer_from = fr, transfer_to = to, transfer_token = tk\<rparr>]
    \<and> tk < length (token_heap st')
    \<and> token_owner (token_heap st' ! tk) = Some to
    \<and> (\<forall>k r. Map_get (owners st) k = Some r \<longrightarrow> Map_get (owners st') k = Some r)
    \<and> (\<forall>k r. Map_get (tokens st) k = Some r \<longrightarrow> Map_get (tokens st') k = Some r)
    \<and> (\<forall>k r. Map_get (tokens st') k = Some r \<longrightarrow> k \<noteq> tid \<longrightarrow>
          Map_get (tokens st) k = Some r \<and> token_heap st' ! r = token_heap st ! r)
    \<and> fst ` set (owners st') = {event_from td, event_to td} \<union> fst ` set (owners st)
    \<and> fst ` set (tokens st') = insert tid (fst ` set (tokens st))
    \<and> newTokens st' = newTokens st @ (if Map_get (tokens st) tid = None then [tk] else [])"
proof -
  obtain fr st1 where s1: "resolve_owner (event_from td) st = (fr, st1)"
    by (cases "resolve_owner (event_from td) st")
  obtain to st2 where s2: "resolve_owner (event_to td) st1 = (to, st2)"
    by (cases "resolve_owner (event_to td) st1")
  obtain tk st3 where s3: "resolve_token td st2 = (tk, st3)"
    by (cases "resolve_token td st2")
  note e1 = resolve_owner_facts[OF inv s1]
  note inv1 = e1(1)
  note e2 = resolve_owner_facts[OF inv1 s2]
  note inv2 = e2(1)
  note e3 = resolve_token_facts[OF inv2 s3]
  note inv3 = e3(1)
  let ?tr = "\<lparr>transfer_id = event_id td, blockNumber = height (event_block td),
           transfer_timestamp = timestamp (event_block td), txHash = hash (event_transaction td),
           transfer_from = fr, transfer_to = to, transfer_token = tk\<rparr>"
  have st': "st' = st3\<lparr>token_heap := (token_heap st3)[tk := (token_heap st3 ! tk)\<lparr>token_owner := Some to\<rparr>],
                      transfers := transfers st3 @ [?tr]\<rparr>"
    by (simp add: st'_def process_transfer_def s1 s2 s3)
  have tok3: "Map_get (tokens st3) tid = Some tk" using e3(2) by (simp add: tid_def)
  have einv3: "entity_inv token_id (tokens st3) (token_heap st3)"
    using inv3 by (simp add: resolver_inv_def)
  have tk_lt: "tk < length (token_heap st3)"
    using entity_inv_Some[OF einv3 tok3] by simp
  have c1: "resolver_inv st'"
    unfolding st' by (rule resolver_inv_owner_update[OF inv3 tk_lt])
  have own: "owners st' = owners st2" and tks: "tokens st' = tokens st3"
    and nt: "newTokens st' = newTokens st3"
    and heap': "token_heap st' = (token_heap st3)[tk := (token_heap st3 ! tk)\<lparr>token_owner := Some to\<rparr>]"
    and trs: "transfers st' = transfers st3 @ [?tr]"
    by (simp_all add: st' e3(7))
  have c2: "Map_get (owners st') (event_from td) = Some fr"
    unfolding own by (rule e2(3)[OF e1(2)])
  have c3: "Map_get (owners st') (event_to td) = Some to"
    unfolding own by (rule e2(2))
  have c4: "Map_get (tokens st') tid = Some tk" unfolding tks by (rule tok3)
  have c5: "transfers st' = transfers st @ [?tr]"
    unfolding trs e3(8) e2(8) e1(8) ..
  have c6: "tk < length (token_heap st')" unfolding heap' using tk_lt by simp
  have c7: "token_owner (token_heap st' ! tk) = Some to" unfolding heap' using tk_lt by simp
  have c8: "\<forall>k r. Map_get (owners st) k = Some r \<longrightarrow> Map_get (owners st') k = Some r"
    unfolding own using e1(3) e2(3) by blast
  have tk2: "tokens st2 = tokens st" "token_heap st2 = token_heap st" "newTokens st2 = newTokens st"
    unfolding e2(5,6,7) e1(5,6,7) by (rule refl)+
  have c9: "\<forall>k r. Map_get (tokens st) k = Some r \<longrightarrow> Map_get (tokens st') k = Some r"
    unfolding tks using e3(3) unfolding tk2 by blast
  have c10: "\<forall>k r. Map_get (tokens st') k = Some r \<longrightarrow> k \<noteq> tid \<longrightarrow>
          Map_get (tokens st) k = Some r \<and> token_heap st' ! r = token_heap st ! r"
  proof (intro allI impI)
    fix k r assume g: "Map_get (tokens st') k = Some r" and ne: "k \<noteq> tid"
    from g have g3: "Map_get (tokens st3) k = Some r" unfolding tks .
    from e3(4)[OF g3] ne have g2: "Map_get (tokens st) k = Some r" by (simp add: tid_def tk2)
    have "r \<noteq> tk" using entity_inv_inj[OF einv3 g3, of tid] tok3 ne by auto
    moreover have "entity_inv token_id (tokens st) (token_heap st)"
      using inv by (simp add: resolver_inv_def)
    from entity_inv_Some[OF this g2] have "r < length (token_heap st)" by simp
    then have "token_heap st3 ! r = token_heap st ! r" using e3(10)[of r] by (simp add: tk2)
    ultimately have "token_heap st' ! r = token_heap st ! r" unfolding heap' by simp
    with g2 show "Map_get (tokens st) k = Some r \<and> token_heap st' ! r = token_heap st ! r" by simp
  qed
  have c11: "fst ` set (owners st') = {event_from td, event_to td} \<union> fst ` set (owners st)"
    unfolding own e2(4) e1(4) by auto
  have c12: "fst ` set (tokens st') = insert tid (fst ` set (tokens st))"
    unfolding tks e3(5) tk2 tid_def ..
  have c13: "newTokens st' = newTokens st @ (if Map_get (tokens st) tid = None then [tk] else [])"
  proof (cases "Map_get (tokens st) tid")
    case None
    then have "Map_get (tokens st2) (toString (tokenIndex td)) = None" by (simp add: tk2 tid_def)
    from e3(11)[OF this] have "newTokens st3 = newTokens st2 @ [tk]" by simp
    then show ?thesis using None by (simp add: nt tk2)
  next
    case (Some r0)
    then have "Map_get (tokens st2) (toString (tokenIndex td)) \<noteq> None" by (simp add: tk2 tid_def)
    from e3(12)[OF this] have "newTokens st3 = newTokens st2" by simp
    then show ?thesis using Some by (simp add: nt tk2)
  qed
  show ?thesis
    by (intro exI[of _ fr] exI[of _ to] exI[of _ tk] conjI)
       (rule c1 c2 c3 c4 c5 c6 c7 c8 c9 c10 c11 c12 c13)+
qed

lemma set_collect_tokensIds_aux:
  "set (fold (\<lambda>td ids. Set_add (toString (tokenIndex td)) ids) tds acc) =
   (\<lambda>td. toString (tokenIndex td)) ` set tds \<union> set acc"
  by (induction tds arbitrary: acc) (auto simp: Set_add_def)

lemma set_collect_tokensIds:
  "set (collect_tokensIds tds) = (\<lambda>td. toString (tokenIndex td)) ` set tds"
  by (simp add: collect_tokensIds_def set_collect_tokensIds_aux)

lemma set_collect_ownersIds_aux:
  "set (fold (\<lambda>td ids. Set_add (event_to td) (Set_add (event_from td) ids)) tds acc) =
   event_from ` set tds \<union> event_to ` set tds \<union> set acc"
  by (induction tds arbitrary: acc) (auto simp: Set_add_def)

lemma set_collect_ownersIds:
  "set (collect_ownersIds tds) = event_from ` set tds \<union> event_to ` set tds"
  by (simp add: collect_ownersIds_def set_collect_ownersIds_aux)

lemma load_entities_facts:
  shows "resolver_inv (load_entities ctx tds)"
    and "fst ` set (tokens (load_entities ctx tds)) =
           token_id ` set (stored_tokens ctx) \<inter> (\<lambda>td. toString (tokenIndex td)) ` set tds"
    and "fst ` set (owners (load_entities ctx tds)) =
           owner_id ` set (stored_owners ctx) \<inter> (event_from ` set tds \<union> event_to ` set tds)"
    and "newTokens (load_entities ctx tds) = []"
    and "transfers (load_entities ctx tds) = []"
proof -
  let ?qt = "map (\<lambda>t. t\<lparr>token_owner := None\<rparr>)
                 (findBy token_id (collect_tokensIds tds) (stored_tokens ctx))"
  let ?qo = "findBy owner_id (collect_ownersIds tds) (stored_owners ctx)"
  have ids: "map token_id ?qt = map token_id (findBy token_id (collect_tokensIds tds) (stored_tokens ctx))"
    by simp
  have tk: "tokens (load_entities ctx tds) = Map_of_entries (zip (map token_id ?qt) [0 ..< length ?qt])"
    and th: "token_heap (load_entities ctx tds) = ?qt"
    and ow: "owners (load_entities ctx tds) = Map_of_entries (zip (map owner_id ?qo) [0 ..< length ?qo])"
    and oh: "owner_heap (load_entities ctx tds) = ?qo"
    and nt: "newTokens (load_entities ctx tds) = []"
    and tr: "transfers (load_entities ctx tds) = []"
    by (simp_all add: load_entities_def Let_def)
  note lt = entity_inv_load[of token_id ?qt]
  note lo = entity_inv_load[of owner_id ?qo]
  show "resolver_inv (load_entities ctx tds)"
    unfolding resolver_inv_def tk th ow oh nt using lt lo by simp
  have "fst ` set (tokens (load_entities ctx tds)) = token_id ` set ?qt"
    unfolding tk using lt by blast
  also have "\<dots> = token_id ` set (findBy token_id (collect_tokensIds tds) (stored_tokens ctx))"
    by (simp add: image_image)
  also have "\<dots> = token_id ` set (stored_tokens ctx) \<inter> (\<lambda>td. toString (tokenIndex td)) ` set tds"
    by (auto simp: findBy_def set_collect_tokensIds)
  finally show "fst ` set (tokens (load_entities ctx tds)) =
           token_id ` set (stored_tokens ctx) \<inter> (\<lambda>td. toString (tokenIndex td)) ` set tds" .
  have "fst ` set (owners (load_entities ctx tds)) = owner_id ` set ?qo"
    unfolding ow using lo by blast
  also have "\<dots> = owner_id ` set (stored_owners ctx) \<inter> (event_from ` set tds \<union> event_to ` set tds)"
    by (auto simp: findBy_def set_collect_ownersIds)
  finally show "fst ` set (owners (load_entities ctx tds)) =
           owner_id ` set (stored_owners ctx) \<inter> (event_from ` set tds \<union> event_to ` set tds)" .
  show "newTokens (load_entities ctx tds) = []" by (rule nt)
  show "transfers (load_entities ctx tds) = []" by (rule tr)
qed

lemma replayed_Nil: "resolver_inv st0 \<Longrightarrow> replayed st0 [] st0"
  by (simp add: replayed_def)

lemma replayedD:
  assumes "replayed st0 tds st"
  shows "resolver_inv st"
    and "fst ` set (owners st) = event_from ` set tds \<union> event_to ` set tds \<union> fst ` set (owners st0)"
    and "fst ` set (tokens st) = (\<lambda>td. toString (tokenIndex td)) ` set tds \<union> fst ` set (tokens st0)"
    and "length (transfers st) = length (transfers st0) + length tds"
    and "\<And>k. k < length tds \<Longrightarrow>
        Map_get (owners st) (event_from (tds ! k)) = Some (transfer_from (transfers st ! (length (transfers st0) + k)))
      \<and> Map_get (owners st) (event_to (tds ! k)) = Some (transfer_to (transfers st ! (length (transfers st0) + k)))
      \<and> Map_get (tokens st) (toString (tokenIndex (tds ! k))) =
            Some (transfer_token (transfers st ! (length (transfers st0) + k)))"
    and "\<And>pre td post. tds = pre @ td # post \<Longrightarrow>
        (\<forall>t \<in> set post. toString (tokenIndex t) \<noteq> toString (tokenIndex td)) \<Longrightarrow>
        (\<exists>r ow. Map_get (tokens st) (toString (tokenIndex td)) = Some r
              \<and> token_owner (token_heap st ! r) = Some ow
              \<and> Map_get (owners st) (event_to td) = Some ow)"
    and "\<exists>new. newTokens st = newTokens st0 @ new
        \<and> (\<forall>r \<in> set new. token_id (token_heap st ! r) \<notin> fst ` set (tokens st0)
                          \<and> token_id (token_heap st ! r) \<in> (\<lambda>td. toString (tokenIndex td)) ` set tds)"
    and "\<And>k r. Map_get (owners st0) k = Some r \<Longrightarrow> Map_get (owners st) k = Some r"
    and "\<And>k r. Map_get (tokens st0) k = Some r \<Longrightarrow> Map_get (tokens st) k = Some r"
proof -
  note a = assms[unfolded replayed_def]
  note a2 = a[THEN conjunct2]
  note a3 = a2[THEN conjunct2]
  note a4 = a3[THEN conjunct2]
  note a5 = a4[THEN conjunct2]
  note a6 = a5[THEN conjunct2]
  note a7 = a6[THEN conjunct2]
  note a8 = a7[THEN conjunct2]
  note a9 = a8[THEN conjunct2]
  show "resolver_inv st" by (rule a[THEN conjunct1])
  show "fst ` set (owners st) = event_from ` set tds \<union> event_to ` set tds \<union> fst ` set (owners st0)"
    by (rule a2[THEN conjunct1])
  show "fst ` set (tokens st) = (\<lambda>td. toString (tokenIndex td)) ` set tds \<union> fst ` set (tokens st0)"
    by (rule a3[THEN conjunct1])
  show "length (transfers st) = length (transfers st0) + length tds"
    by (rule a4[THEN conjunct1])
  show "\<And>k. k < length tds \<Longrightarrow>
        Map_get (owners st) (event_from (tds ! k)) = Some (transfer_from (transfers st ! (length (transfers st0) + k)))
      \<and> Map_get (owners st) (event_to (tds ! k)) = Some (transfer_to (transfers st ! (length (transfers st0) + k)))
      \<and> Map_get (tokens st) (toString (tokenIndex (tds ! k))) =
            Some (transfer_token (transfers st ! (length (transfers st0) + k)))"
    by (rule a5[THEN conjunct1, rule_format])
  show "\<And>pre td post. tds = pre @ td # post \<Longrightarrow>
        (\<forall>t \<in> set post. toString (tokenIndex t) \<noteq> toString (tokenIndex td)) \<Longrightarrow>
        (\<exists>r ow. Map_get (tokens st) (toString (tokenIndex td)) = Some r
              \<and> token_owner (token_heap st ! r) = Some ow
              \<and> Map_get (owners st) (event_to td) = Some ow)"
    using a6[THEN conjunct1] by blast
  show "\<exists>new. newTokens st = newTokens st0 @ new
        \<and> (\<forall>r \<in> set new. token_id (token_heap st ! r) \<notin> fst ` set (tokens st0)
                          \<and> token_id (token_heap st ! r) \<in> (\<lambda>td. toString (tokenIndex td)) ` set tds)"
    by (rule a7[THEN conjunct1])
  show "\<And>k r. Map_get (owners st0) k = Some r \<Longrightarrow> Map_get (owners st) k = Some r"
    using a8[THEN conjunct1] by blast
  show "\<And>k r. Map_get (tokens st0) k = Some r \<Longrightarrow> Map_get (tokens st) k = Some r"
    using a9 by blast
qed

lemma replayed_step:
  assumes rp: "replayed st0 tds st"
  shows "replayed st0 (tds @ [x]) (process_transfer x st)"
proof -
  note p = replayedD[OF rp]
  let ?st' = "process_transfer x st"
  let ?tid = "toString (tokenIndex x)"
  let ?n0 = "length (transfers st0)"
  from process_transfer_effect[OF p(1), of x] obtain fr to tk where
    c1: "resolver_inv ?st'"
    and c2: "Map_get (owners ?st') (event_from x) = Some fr"
    and c3: "Map_get (owners ?st') (event_to x) = Some to"
    and c4: "Map_get (tokens ?st') ?tid = Some tk"
    and c5: "transfers ?st' = transfers st @
         [\<lparr>transfer_id = event_id x, blockNumber = height (event_block x),
           transfer_timestamp = timestamp (event_block x), txHash = hash (event_transaction x),
           transfer_from = fr, transfer_to = to, transfer_token = tk\<rparr>]"
    and c6: "tk < length (token_heap ?st')"
    and c7: "token_owner (token_heap ?st' ! tk) = Some to"
    and c8: "\<forall>k r. Map_get (owners st) k = Some r \<longrightarrow> Map_get (owners ?st') k = Some r"
    and c9: "\<forall>k r. Map_get (tokens st) k = Some r \<longrightarrow> Map_get (tokens ?st') k = Some r"
    and c10: "\<forall>k r. Map_get (tokens ?st') k = Some r \<longrightarrow> k \<noteq> ?tid \<longrightarrow>
          Map_get (tokens st) k = Some r \<and> token_heap ?st' ! r = token_heap st ! r"
    and c11: "fst ` set (owners ?st') = {event_from x, event_to x} \<union> fst ` set (owners st)"
    and c12: "fst ` set (tokens ?st') = insert ?tid (fst ` set (tokens st))"
    and c13: "newTokens ?st' = newTokens st @ (if Map_get (tokens st) ?tid = None then [tk] else [])"
    by (elim exE conjE) (rule that)
  have einv: "entity_inv token_id (tokens st) (token_heap st)"
    and einv': "entity_inv token_id (tokens ?st') (token_heap ?st')"
    using p(1) c1 by (simp_all add: resolver_inv_def)
  have q2: "fst ` set (owners ?st') =
      event_from ` set (tds @ [x]) \<union> event_to ` set (tds @ [x]) \<union> fst ` set (owners st0)"
    unfolding c11 p(2) by auto
  have q3: "fst ` set (tokens ?st') =
      (\<lambda>td. toString (tokenIndex td)) ` set (tds @ [x]) \<union> fst ` set (tokens st0)"
    unfolding c12 p(3) by auto
  have q4: "length (transfers ?st') = ?n0 + length (tds @ [x])"
    unfolding c5 using p(4) by simp
  have q5: "\<forall>k < length (tds @ [x]).
        Map_get (owners ?st') (event_from ((tds @ [x]) ! k)) = Some (transfer_from (transfers ?st' ! (?n0 + k)))
      \<and> Map_get (owners ?st') (event_to ((tds @ [x]) ! k)) = Some (transfer_to (transfers ?st' ! (?n0 + k)))
      \<and> Map_get (tokens ?st') (toString (tokenIndex ((tds @ [x]) ! k))) =
            Some (transfer_token (transfers ?st' ! (?n0 + k)))"
  proof (intro allI impI)
    fix k assume k: "k < length (tds @ [x])"
    show "Map_get (owners ?st') (event_from ((tds @ [x]) ! k)) = Some (transfer_from (transfers ?st' ! (?n0 + k)))
      \<and> Map_get (owners ?st') (event_to ((tds @ [x]) ! k)) = Some (transfer_to (transfers ?st' ! (?n0 + k)))
      \<and> Map_get (tokens ?st') (toString (tokenIndex ((tds @ [x]) ! k))) =
            Some (transfer_token (transfers ?st' ! (?n0 + k)))"
    proof (cases "k < length tds")
      case True
      then have nth: "(tds @ [x]) ! k = tds ! k" by (simp add: nth_append)
      have tr: "transfers ?st' ! (?n0 + k) = transfers st ! (?n0 + k)"
        unfolding c5 using True p(4) by (simp add: nth_append)
      from p(5)[OF True] show ?thesis unfolding nth tr using c8 c9 by blast
    next
      case False
      with k have kk: "k = length tds" by simp
      have nth: "(tds @ [x]) ! k = x" by (simp add: kk)
      have tr: "transfers ?st' ! (?n0 + k) =
         \<lparr>transfer_id = event_id x, blockNumber = height (event_block x),
           transfer_timestamp = timestamp (event_block x), txHash = hash (event_transaction x),
           transfer_from = fr, transfer_to = to, transfer_token = tk\<rparr>"
        unfolding c5 kk using p(4) by (simp add: nth_append)
      show ?thesis unfolding nth tr using c2 c3 c4 by simp
    qed
  qed
  have q6: "\<forall>pre td post. tds @ [x] = pre @ td # post \<longrightarrow>
        (\<forall>t \<in> set post. toString (tokenIndex t) \<noteq> toString (tokenIndex td)) \<longrightarrow>
        (\<exists>r ow. Map_get (tokens ?st') (toString (tokenIndex td)) = Some r
              \<and> token_owner (token_heap ?st' ! r) = Some ow
              \<and> Map_get (owners ?st') (event_to td) = Some ow)"
  proof (intro allI impI)
    fix pre td post
    assume dec: "tds @ [x] = pre @ td # post"
      and later: "\<forall>t \<in> set post. toString (tokenIndex t) \<noteq> toString (tokenIndex td)"
    show "\<exists>r ow. Map_get (tokens ?st') (toString (tokenIndex td)) = Some r
              \<and> token_owner (token_heap ?st' ! r) = Some ow
              \<and> Map_get (owners ?st') (event_to td) = Some ow"
    proof (cases post rule: rev_cases)
      case Nil
      with dec have "td = x" by simp
      then show ?thesis using c4 c7 c3 by blast
    next
      case (snoc post' y)
      with dec have y: "y = x" and tds: "tds = pre @ td # post'" by simp_all
      from later snoc y have ne: "toString (tokenIndex td) \<noteq> ?tid"
        and later': "\<forall>t \<in> set post'. toString (tokenIndex t) \<noteq> toString (tokenIndex td)"
        by auto
      from p(6)[OF tds later'] obtain r ow where
        g: "Map_get (tokens st) (toString (tokenIndex td)) = Some r"
        and o: "token_owner (token_heap st ! r) = Some ow"
        and m: "Map_get (owners st) (event_to td) = Some ow" by blast
      from g c9 have g': "Map_get (tokens ?st') (toString (tokenIndex td)) = Some r" by blast
      from c10 g' ne have "token_heap ?st' ! r = token_heap st ! r" by blast
      with o have "token_owner (token_heap ?st' ! r) = Some ow" by simp
      moreover from m c8 have "Map_get (owners ?st') (event_to td) = Some ow" by blast
      ultimately show ?thesis using g' by blast
    qed
  qed
  have q7: "\<exists>new. newTokens ?st' = newTokens st0 @ new
        \<and> (\<forall>r \<in> set new. token_id (token_heap ?st' ! r) \<notin> fst ` set (tokens st0)
                          \<and> token_id (token_heap ?st' ! r) \<in> (\<lambda>td. toString (tokenIndex td)) ` set (tds @ [x]))"
  proof -
    from p(7) obtain new where n: "newTokens st = newTokens st0 @ new"
      and nn: "\<forall>r \<in> set new. token_id (token_heap st ! r) \<notin> fst ` set (tokens st0)
                          \<and> token_id (token_heap st ! r) \<in> (\<lambda>td. toString (tokenIndex td)) ` set tds"
      by blast
    have keep: "token_id (token_heap ?st' ! r) = token_id (token_heap st ! r)" if "r \<in> set new" for r
    proof -
      from that n have "r \<in> set (newTokens st)" by simp
      with p(1) have "r \<in> snd ` set (tokens st)" by (auto simp: resolver_inv_def)
      then obtain k where kr: "(k, r) \<in> set (tokens st)" by force
      then have g: "Map_get (tokens st) k = Some r"
        using einv by (simp add: entity_inv_def Map_get_Some)
      with c9 have g': "Map_get (tokens ?st') k = Some r" by blast
      from entity_inv_Some[OF einv g] entity_inv_Some[OF einv' g'] show ?thesis by simp
    qed
    let ?add = "if Map_get (tokens st) ?tid = None then [tk] else []"
    have n': "newTokens ?st' = newTokens st0 @ (new @ ?add)" unfolding c13 n by simp
    have "\<forall>r \<in> set (new @ ?add). token_id (token_heap ?st' ! r) \<notin> fst ` set (tokens st0)
                          \<and> token_id (token_heap ?st' ! r) \<in> (\<lambda>td. toString (tokenIndex td)) ` set (tds @ [x])"
    proof
      fix r assume r: "r \<in> set (new @ ?add)"
      show "token_id (token_heap ?st' ! r) \<notin> fst ` set (tokens st0)
                          \<and> token_id (token_heap ?st' ! r) \<in> (\<lambda>td. toString (tokenIndex td)) ` set (tds @ [x])"
      proof (cases "r \<in> set new")
        case True
        with nn keep[OF True] show ?thesis by auto
      next
        case False
        with r have none: "Map_get (tokens st) ?tid = None" and rt: "r = tk"
          by (auto split: if_splits)
        from entity_inv_Some[OF einv' c4] have idt: "token_id (token_heap ?st' ! tk) = ?tid" by simp
        from none have "?tid \<notin> fst ` set (tokens st)" by (simp add: Map_get_None)
        then have "?tid \<notin> fst ` set (tokens st0)" unfolding p(3) by simp
        then show ?thesis unfolding rt idt by simp
      qed
    qed
    with n' show ?thesis by blast
  qed
  have q8: "\<forall>k r. Map_get (owners st0) k = Some r \<longrightarrow> Map_get (owners ?st') k = Some r"
    using p(8) c8 by blast
  have q9: "\<forall>k r. Map_get (tokens st0) k = Some r \<longrightarrow> Map_get (tokens ?st') k = Some r"
    using p(9) c9 by blast
  show ?thesis
    unfolding replayed_def
    by (intro conjI) (rule c1 q2 q3 q4 q5 q6 q7 q8 q9)+
qed

lemma replayed_fold:
  "resolver_inv st0 \<Longrightarrow> replayed st0 tds (fold process_transfer tds st0)"
proof (induction tds rule: rev_induct)
  case Nil
  then show ?case by (simp add: replayed_Nil)
next
  case (snoc x tds)
  then show ?case using replayed_step[of st0 tds "fold process_transfer tds st0" x] by simp
qed

section \<open>Token ids\<close>

lemma digit_char_inj: "a < 10 \<Longrightarrow> b < 10 \<Longrightarrow> digit_char a = digit_char b \<Longrightarrow> a = b"
proof -
  assume a: "a < 10" and b: "b < 10" and eq: "digit_char a = digit_char b"
  have d: "distinct ''0123456789''" by simp
  have "length ''0123456789'' = 10" by simp
  with a b d eq show "a = b"
    unfolding digit_char_def by (metis nth_eq_iff_index_eq)
qed

lemma nat_to_string_nonempty: "nat_to_string n \<noteq> []"
  by (subst nat_to_string.simps) simp

lemma digit_char_not_minus: "d < 10 \<Longrightarrow> digit_char d \<noteq> CHR ''-''"
proof -
  assume "d < 10"
  then have "digit_char d \<in> set ''0123456789''"
    unfolding digit_char_def by (intro nth_mem) simp
  then show ?thesis by auto
qed

lemma nat_to_string_hd: "hd (nat_to_string n) \<noteq> CHR ''-''"
proof (induction n rule: nat_to_string.induct)
  case (1 n)
  show ?case
  proof (cases "n < 10")
    case True
    then show ?thesis by (subst nat_to_string.simps) (simp add: digit_char_not_minus)
  next
    case False
    then have "nat_to_string n = nat_to_string (n div 10) @ [digit_char (n mod 10)]"
      by (subst nat_to_string.simps) simp
    then show ?thesis using 1[OF False] nat_to_string_nonempty[of "n div 10"] by simp
  qed
qed

lemma nat_to_string_inj: "nat_to_string a = nat_to_string b \<Longrightarrow> a = b"
proof (induction a arbitrary: b rule: nat_to_string.induct)
  case (1 a)
  show ?case
  proof (cases "a < 10")
    case True
    then have sa: "nat_to_string a = [digit_char a]" by (subst nat_to_string.simps) simp
    show ?thesis
    proof (cases "b < 10")
      case b: True
      then have "nat_to_string b = [digit_char b]" by (subst nat_to_string.simps) simp
      with sa "1.prems" True b show ?thesis by (auto dest: digit_char_inj)
    next
      case b: False
      then have "nat_to_string b = nat_to_string (b div 10) @ [digit_char (b mod 10)]"
        by (subst nat_to_string.simps) simp
      with sa "1.prems" nat_to_string_nonempty[of "b div 10"] show ?thesis by (cases "nat_to_string (b div 10)") auto
    qed
  next
    case False
    then have sa: "nat_to_string a = nat_to_string (a div 10) @ [digit_char (a mod 10)]"
      by (subst nat_to_string.simps) simp
    show ?thesis
    proof (cases "b < 10")
      case b: True
      then have "nat_to_string b = [digit_char b]" by (subst nat_to_string.simps) simp
      with sa "1.prems" nat_to_string_nonempty[of "a div 10"] show ?thesis by (cases "nat_to_string (a div 10)") auto
    next
      case b: False
      then have sb: "nat_to_string b = nat_to_string (b div 10) @ [digit_char (b mod 10)]"
        by (subst nat_to_string.simps) simp
      from sa sb "1.prems" have e1: "nat_to_string (a div 10) = nat_to_string (b div 10)"
        and e2: "digit_char (a mod 10) = digit_char (b mod 10)" by simp_all
      from "1.IH"[OF False e1] have "a div 10 = b div 10" .
      moreover from e2 have "a mod 10 = b mod 10" by (intro digit_char_inj) simp_all
      ultimately show ?thesis by (metis div_mult_mod_eq)
    qed
  qed
qed

lemma toString_inj: "toString a = toString b \<Longrightarrow> a = b"
proof -
  assume eq: "toString a = toString b"
  have neg: "hd (toString i) = CHR ''-'' \<longleftrightarrow> i < 0" for i
    using nat_to_string_hd[of "nat i"] by (simp add: toString_def)
  from eq have same: "a < 0 \<longleftrightarrow> b < 0" using neg[of a] neg[of b] by simp
  show "a = b"
  proof (cases "a < 0")
    case True
    with same eq have "nat_to_string (nat (- a)) = nat_to_string (nat (- b))" by (simp add: toString_def)
    then have "nat (- a) = nat (- b)" by (rule nat_to_string_inj)
    with True same show ?thesis by simp
  next
    case False
    with same eq have "nat_to_string (nat a) = nat_to_string (nat b)" by (simp add: toString_def)
    then have "nat a = nat b" by (rule nat_to_string_inj)
    with False same show ?thesis by simp
  qed
qed

lemma replayed_resolve: "replayed (load_entities ctx tds) tds (resolve_entities ctx tds)"
  unfolding resolve_entities_def by (rule replayed_fold) (rule load_entities_facts(1))

section \<open>The owner of a token\<close>

lemma assign_metadata_keeps:
  "assign_metadata t u md = Inr t' \<Longrightarrow>
   token_owner t' = token_owner t \<and> token_id t' = token_id t \<and> token_index t' = token_index t"
  by (auto simp: assign_metadata_def split: sum.splits)

lemma resolver_newTokens_bounds:
  assumes "resolver_inv st"
  shows "distinct (newTokens st)" and "\<forall>r \<in> set (newTokens st). r < length (token_heap st)"
proof -
  show "distinct (newTokens st)" using assms by (simp add: resolver_inv_def)
  have "entity_inv token_id (tokens st) (token_heap st)" "set (newTokens st) \<subseteq> snd ` set (tokens st)"
    using assms by (simp_all add: resolver_inv_def)
  then show "\<forall>r \<in> set (newTokens st). r < length (token_heap st)"
    by (auto simp: entity_inv_def)
qed

lemma initTokens_keeps_owner:
  assumes "initTokens cfg ctx toks heap = Some (tr, Inr heap')"
    and "distinct toks" "\<forall>r \<in> set toks. r < length heap"
  shows "token_owner (heap' ! r) = token_owner (heap ! r)"
proof -
  from initTokens_Inr[OF assms(1)] obtain uris mds where
    al: "assign_loop toks 0 uris mds heap = Inr heap'" by blast
  note L = assign_loop_Inr[OF al assms(2,3)]
  show ?thesis
  proof (cases "r \<in> set toks")
    case False
    with L show ?thesis by simp
  next
    case True
    then obtain k where k: "k < length toks" "toks ! k = r" by (auto simp: in_set_conv_nth)
    with L have "assign_metadata (heap ! r) (at_index uris (0 + k))
        (case at_index mds (0 + k) of None \<Rightarrow> None | Some m \<Rightarrow> m) = Inr (heap' ! r)" by blast
    from assign_metadata_keeps[OF this] show ?thesis by simp
  qed
qed

lemma processTransfers_Inr:
  assumes "processTransfers cfg ctx tds = Some (tr, Inr (st', ups))"
  shows "\<exists>heap'. initTokens cfg ctx (newTokens (resolve_entities ctx tds))
                    (token_heap (resolve_entities ctx tds)) = Some (tr, Inr heap')
               \<and> st' = (resolve_entities ctx tds)\<lparr>token_heap := heap'\<rparr> \<and> ups = flush st'"
  using assms
  by (auto simp: processTransfers_def Let_def split: option.splits prod.splits sum.splits)

text \<open>Claim C1. After the entity-resolution pass, the token of a transfer that no later
  transfer of the batch references has as owner the \<open>Owner\<close> object of that transfer's
  \<^verbatim>\<open>to\<close> address, whatever transfers of the same token came before it; the owner is still
  that object when \<^verbatim>\<open>processTransfers\<close> flushes.\<close>

theorem last_transfer_sets_owner:
  assumes "tds = pre @ td # post"
    and "\<forall>t \<in> set post. tokenIndex t \<noteq> tokenIndex td"
  shows "\<exists>r ow. Map_get (tokens (resolve_entities ctx tds)) (toString (tokenIndex td)) = Some r
     \<and> r < length (token_heap (resolve_entities ctx tds))
     \<and> token_owner (token_heap (resolve_entities ctx tds) ! r) = Some ow
     \<and> Map_get (owners (resolve_entities ctx tds)) (event_to td) = Some ow
     \<and> ow < length (owner_heap (resolve_entities ctx tds))
     \<and> owner_id (owner_heap (resolve_entities ctx tds) ! ow) = event_to td
     \<and> (\<forall>cfg tr st' ups. processTransfers cfg ctx tds = Some (tr, Inr (st', ups)) \<longrightarrow>
           token_owner (token_heap st' ! r) = Some ow)"
proof -
  let ?st = "resolve_entities ctx tds"
  note p = replayedD[OF replayed_resolve[of ctx tds]]
  from assms(2) have later: "\<forall>t \<in> set post. toString (tokenIndex t) \<noteq> toString (tokenIndex td)"
    using toString_inj by blast
  from p(6)[OF assms(1) later] obtain r ow where
    g: "Map_get (tokens ?st) (toString (tokenIndex td)) = Some r"
    and o: "token_owner (token_heap ?st ! r) = Some ow"
    and m: "Map_get (owners ?st) (event_to td) = Some ow" by blast
  have et: "entity_inv token_id (tokens ?st) (token_heap ?st)"
    and eo: "entity_inv owner_id (owners ?st) (owner_heap ?st)"
    using p(1) by (simp_all add: resolver_inv_def)
  note bt = entity_inv_Some[OF et g]
  note bo = entity_inv_Some[OF eo m]
  have fin: "\<forall>cfg tr st' ups. processTransfers cfg ctx tds = Some (tr, Inr (st', ups)) \<longrightarrow>
           token_owner (token_heap st' ! r) = Some ow"
  proof (intro allI impI)
    fix cfg tr st' ups
    assume "processTransfers cfg ctx tds = Some (tr, Inr (st', ups))"
    from processTransfers_Inr[OF this] obtain heap' where
      i: "initTokens cfg ctx (newTokens ?st) (token_heap ?st) = Some (tr, Inr heap')"
      and s: "st' = ?st\<lparr>token_heap := heap'\<rparr>" by blast
    from initTokens_keeps_owner[OF i resolver_newTokens_bounds[OF p(1)], of r] o
    show "token_owner (token_heap st' ! r) = Some ow" by (simp add: s)
  qed
  show ?thesis using g o m bt bo fin by blast
qed

lemma example_resolved:
  "resolve_entities example_ctx example_batch =
   \<lparr>owner_heap = [\<lparr>owner_id = ''0xb''\<rparr>, \<lparr>owner_id = ''0xa''\<rparr>, \<lparr>owner_id = ''0xc''\<rparr>],
    token_heap =
      [\<lparr>token_id = ''7'', token_index = 7, token_owner = Some 1,
        token_uri = Some ''https://meta.example/7'', token_image = None, token_attributes = None\<rparr>,
       \<lparr>token_id = ''5'', token_index = 5, token_owner = Some 2,
        token_uri = None, token_image = None, token_attributes = None\<rparr>],
    owners = [(''0xb'', 0), (''0xa'', 1), (''0xc'', 2)],
    tokens = [(''7'', 0), (''5'', 1)], newTokens = [1],
    transfers =
      [\<lparr>transfer_id = ''t1'', blockNumber = 100, transfer_timestamp = 1000,
        txHash = ''0xh'', transfer_from = 1, transfer_to = 0, transfer_token = 1\<rparr>,
       \<lparr>transfer_id = ''t2'', blockNumber = 100, transfer_timestamp = 1000,
        txHash = ''0xh'', transfer_from = 0, transfer_to = 2, transfer_token = 1\<rparr>,
       \<lparr>transfer_id = ''t3'', blockNumber = 100, transfer_timestamp = 1000,
        txHash = ''0xh'', transfer_from = 2, transfer_to = 1, transfer_token = 0\<rparr>]\<rparr>"
  by code_simp

text \<open>Token 5 of the example batch is transferred twice; its owner is the receiver of the
  second transfer.\<close>

theorem last_transfer_sets_owner_witness:
  "example_batch = [example_event ''t1'' ''0xa'' ''0xb'' 5] @ example_event ''t2'' ''0xb'' ''0xc'' 5 #
       [example_event ''t3'' ''0xc'' ''0xa'' 7]
   \<and> tokenIndex (example_event ''t3'' ''0xc'' ''0xa'' 7) \<noteq> tokenIndex (example_event ''t2'' ''0xb'' ''0xc'' 5)
   \<and> Map_get (tokens (resolve_entities example_ctx example_batch)) ''5'' = Some 1
   \<and> token_owner (token_heap (resolve_entities example_ctx example_batch) ! 1) = Some 2
   \<and> Map_get (owners (resolve_entities example_ctx example_batch)) ''0xc'' = Some 2
   \<and> owner_id (owner_heap (resolve_entities example_ctx example_batch) ! 2) = ''0xc''"
proof -
  have d: "example_batch = [example_event ''t1'' ''0xa'' ''0xb'' 5] @ example_event ''t2'' ''0xb'' ''0xc'' 5 #
       [example_event ''t3'' ''0xc'' ''0xa'' 7]"
    by (simp add: example_batch_def)
  have n: "\<forall>t \<in> set [example_event ''t3'' ''0xc'' ''0xa'' 7].
             tokenIndex t \<noteq> tokenIndex (example_event ''t2'' ''0xb'' ''0xc'' 5)"
    by (simp add: example_event_def)
  from last_transfer_sets_owner[OF d n, of example_ctx] obtain r ow where
    "Map_get (tokens (resolve_entities example_ctx example_batch))
        (toString (tokenIndex (example_event ''t2'' ''0xb'' ''0xc'' 5))) = Some r"
    "token_owner (token_heap (resolve_entities example_ctx example_batch) ! r) = Some ow"
    "Map_get (owners (resolve_entities example_ctx example_batch))
        (event_to (example_event ''t2'' ''0xb'' ''0xc'' 5)) = Some ow"
    "owner_id (owner_heap (resolve_entities example_ctx example_batch) ! ow) =
        event_to (example_event ''t2'' ''0xb'' ''0xc'' 5)"
    by blast
  moreover have "toString (tokenIndex (example_event ''t2'' ''0xb'' ''0xc'' 5)) = ''5''"
    by code_simp
  moreover have "event_to (example_event ''t2'' ''0xb'' ''0xc'' 5) = ''0xc''"
    by (simp add: example_event_def)
  moreover have "Map_get (tokens (resolve_entities example_ctx example_batch)) ''5'' = Some 1"
    "Map_get (owners (resolve_entities example_ctx example_batch)) ''0xc'' = Some 2"
    unfolding example_resolved by (simp_all add: Map_get_def)
  ultimately show ?thesis using d n by simp
qed

section \<open>The maps of the resolver\<close>

lemma distinct_keys_of_inv: "entity_inv ident m heap \<Longrightarrow> distinct (Map_keys m)"
  by (simp add: entity_inv_def Map_keys_def)

text \<open>Claim C3. After the entity-resolution pass the keys of the owner map are exactly
  the \<^verbatim>\<open>from\<close> and \<^verbatim>\<open>to\<close> addresses of the batch and the keys of the token map exactly
  the token indices as strings, each key once; every key maps to an object of the heap that
  carries this id; the references of every transfer built are the objects the maps hold for
  its ids, so two references are the same object exactly when their ids are equal.\<close>

theorem resolver_maps_exact:
  "set (Map_keys (owners (resolve_entities ctx tds))) = event_from ` set tds \<union> event_to ` set tds
   \<and> distinct (Map_keys (owners (resolve_entities ctx tds)))
   \<and> set (Map_keys (tokens (resolve_entities ctx tds))) = (\<lambda>td. toString (tokenIndex td)) ` set tds
   \<and> distinct (Map_keys (tokens (resolve_entities ctx tds)))
   \<and> length (transfers (resolve_entities ctx tds)) = length tds
   \<and> (\<forall>k < length tds.
        Map_get (owners (resolve_entities ctx tds)) (event_from (tds ! k)) =
          Some (transfer_from (transfers (resolve_entities ctx tds) ! k))
      \<and> Map_get (owners (resolve_entities ctx tds)) (event_to (tds ! k)) =
          Some (transfer_to (transfers (resolve_entities ctx tds) ! k))
      \<and> Map_get (tokens (resolve_entities ctx tds)) (toString (tokenIndex (tds ! k))) =
          Some (transfer_token (transfers (resolve_entities ctx tds) ! k)))
   \<and> (\<forall>j < length tds. \<forall>k < length tds.
        (tokenIndex (tds ! j) = tokenIndex (tds ! k) \<longleftrightarrow>
           transfer_token (transfers (resolve_entities ctx tds) ! j) =
           transfer_token (transfers (resolve_entities ctx tds) ! k))
      \<and> (event_from (tds ! j) = event_from (tds ! k) \<longleftrightarrow>
           transfer_from (transfers (resolve_entities ctx tds) ! j) =
           transfer_from (transfers (resolve_entities ctx tds) ! k))
      \<and> (event_to (tds ! j) = event_to (tds ! k) \<longleftrightarrow>
           transfer_to (transfers (resolve_entities ctx tds) ! j) =
           transfer_to (transfers (resolve_entities ctx tds) ! k))
      \<and> (event_from (tds ! j) = event_to (tds ! k) \<longleftrightarrow>
           transfer_from (transfers (resolve_entities ctx tds) ! j) =
           transfer_to (transfers (resolve_entities ctx tds) ! k)))
   \<and> (\<forall>k r. Map_get (owners (resolve_entities ctx tds)) k = Some r \<longrightarrow>
        r < length (owner_heap (resolve_entities ctx tds))
      \<and> owner_id (owner_heap (resolve_entities ctx tds) ! r) = k)
   \<and> (\<forall>k r. Map_get (tokens (resolve_entities ctx tds)) k = Some r \<longrightarrow>
        r < length (token_heap (resolve_entities ctx tds))
      \<and> token_id (token_heap (resolve_entities ctx tds) ! r) = k)"
proof -
  let ?st = "resolve_entities ctx tds"
  note p = replayedD[OF replayed_resolve[of ctx tds]]
  note l = load_entities_facts[of ctx tds]
  have et: "entity_inv token_id (tokens ?st) (token_heap ?st)"
    and eo: "entity_inv owner_id (owners ?st) (owner_heap ?st)"
    using p(1) by (simp_all add: resolver_inv_def)
  have q1: "set (Map_keys (owners ?st)) = event_from ` set tds \<union> event_to ` set tds"
    using p(2) l(3) by (auto simp: Map_keys_def)
  have q2: "distinct (Map_keys (owners ?st))" by (rule distinct_keys_of_inv[OF eo])
  have q3: "set (Map_keys (tokens ?st)) = (\<lambda>td. toString (tokenIndex td)) ` set tds"
    using p(3) l(2) by (auto simp: Map_keys_def)
  have q4: "distinct (Map_keys (tokens ?st))" by (rule distinct_keys_of_inv[OF et])
  have q5: "length (transfers ?st) = length tds" using p(4) l(5) by simp
  have q6: "\<forall>k < length tds.
        Map_get (owners ?st) (event_from (tds ! k)) = Some (transfer_from (transfers ?st ! k))
      \<and> Map_get (owners ?st) (event_to (tds ! k)) = Some (transfer_to (transfers ?st ! k))
      \<and> Map_get (tokens ?st) (toString (tokenIndex (tds ! k))) = Some (transfer_token (transfers ?st ! k))"
  proof (intro allI impI)
    fix k assume "k < length tds"
    from p(5)[OF this] show "Map_get (owners ?st) (event_from (tds ! k)) = Some (transfer_from (transfers ?st ! k))
      \<and> Map_get (owners ?st) (event_to (tds ! k)) = Some (transfer_to (transfers ?st ! k))
      \<and> Map_get (tokens ?st) (toString (tokenIndex (tds ! k))) = Some (transfer_token (transfers ?st ! k))"
      by (simp add: l(5))
  qed
  have q8: "\<forall>k r. Map_get (owners ?st) k = Some r \<longrightarrow>
        r < length (owner_heap ?st) \<and> owner_id (owner_heap ?st ! r) = k"
    using entity_inv_Some[OF eo] by blast
  have q9: "\<forall>k r. Map_get (tokens ?st) k = Some r \<longrightarrow>
        r < length (token_heap ?st) \<and> token_id (token_heap ?st ! r) = k"
    using entity_inv_Some[OF et] by blast
  have same: "(a = b) \<longleftrightarrow> (ra = rb)"
    if "Map_get m a = Some ra" "Map_get m b = Some rb" "entity_inv ident m heap"
    for m :: "(string \<times> ref) list" and a b ra rb and ident :: "'e \<Rightarrow> string" and heap
    using that entity_inv_inj[of ident m heap a ra b] by auto
  have q7: "\<forall>j < length tds. \<forall>k < length tds.
        (tokenIndex (tds ! j) = tokenIndex (tds ! k) \<longleftrightarrow>
           transfer_token (transfers ?st ! j) = transfer_token (transfers ?st ! k))
      \<and> (event_from (tds ! j) = event_from (tds ! k) \<longleftrightarrow>
           transfer_from (transfers ?st ! j) = transfer_from (transfers ?st ! k))
      \<and> (event_to (tds ! j) = event_to (tds ! k) \<longleftrightarrow>
           transfer_to (transfers ?st ! j) = transfer_to (transfers ?st ! k))
      \<and> (event_from (tds ! j) = event_to (tds ! k) \<longleftrightarrow>
           transfer_from (transfers ?st ! j) = transfer_to (transfers ?st ! k))"
  proof (intro allI impI)
    fix j k assume j: "j < length tds" and k: "k < length tds"
    note fj = q6[rule_format, OF j] and fk = q6[rule_format, OF k]
    have "(toString (tokenIndex (tds ! j)) = toString (tokenIndex (tds ! k))) \<longleftrightarrow>
          transfer_token (transfers ?st ! j) = transfer_token (transfers ?st ! k)"
      by (rule same[OF _ _ et]) (simp_all add: fj fk)
    moreover have "(toString (tokenIndex (tds ! j)) = toString (tokenIndex (tds ! k))) \<longleftrightarrow>
        tokenIndex (tds ! j) = tokenIndex (tds ! k)"
      using toString_inj[of "tokenIndex (tds ! j)" "tokenIndex (tds ! k)"] by auto
    moreover have "event_from (tds ! j) = event_from (tds ! k) \<longleftrightarrow>
           transfer_from (transfers ?st ! j) = transfer_from (transfers ?st ! k)"
      by (rule same[OF _ _ eo]) (simp_all add: fj fk)
    moreover have "event_to (tds ! j) = event_to (tds ! k) \<longleftrightarrow>
           transfer_to (transfers ?st ! j) = transfer_to (transfers ?st ! k)"
      by (rule same[OF _ _ eo]) (simp_all add: fj fk)
    moreover have "event_from (tds ! j) = event_to (tds ! k) \<longleftrightarrow>
           transfer_from (transfers ?st ! j) = transfer_to (transfers ?st ! k)"
      by (rule same[OF _ _ eo]) (simp_all add: fj fk)
    ultimately show "(tokenIndex (tds ! j) = tokenIndex (tds ! k) \<longleftrightarrow>
           transfer_token (transfers ?st ! j) = transfer_token (transfers ?st ! k))
      \<and> (event_from (tds ! j) = event_from (tds ! k) \<longleftrightarrow>
           transfer_from (transfers ?st ! j) = transfer_from (transfers ?st ! k))
      \<and> (event_to (tds ! j) = event_to (tds ! k) \<longleftrightarrow>
           transfer_to (transfers ?st ! j) = transfer_to (transfers ?st ! k))
      \<and> (event_from (tds ! j) = event_to (tds ! k) \<longleftrightarrow>
           transfer_from (transfers ?st ! j) = transfer_to (transfers ?st ! k))"
      by blast
  qed
  show ?thesis
    by (intro conjI) (rule q1 q2 q3 q4 q5 q6 q7 q8 q9)+
qed

text \<open>The example batch: three addresses, two tokens, the first two transfers sharing
  their token and an address.\<close>

theorem resolver_maps_exact_witness:
  "Map_keys (owners (resolve_entities example_ctx example_batch)) = [''0xb'', ''0xa'', ''0xc'']
   \<and> event_from ` set example_batch \<union> event_to ` set example_batch = {''0xa'', ''0xb'', ''0xc''}
   \<and> Map_keys (tokens (resolve_entities example_ctx example_batch)) = [''7'', ''5'']
   \<and> (0::nat) < length example_batch \<and> 1 < length example_batch
   \<and> tokenIndex (example_batch ! 0) = tokenIndex (example_batch ! 1)
   \<and> transfer_token (transfers (resolve_entities example_ctx example_batch) ! 0) =
     transfer_token (transfers (resolve_entities example_ctx example_batch) ! 1)
   \<and> event_from (example_batch ! 1) = event_to (example_batch ! 0)
   \<and> transfer_from (transfers (resolve_entities example_ctx example_batch) ! 1) =
     transfer_to (transfers (resolve_entities example_ctx example_batch) ! 0)
   \<and> set (Map_keys (owners (resolve_entities example_ctx example_batch))) =
       event_from ` set example_batch \<union> event_to ` set example_batch
   \<and> distinct (Map_keys (owners (resolve_entities example_ctx example_batch)))
   \<and> set (Map_keys (tokens (resolve_entities example_ctx example_batch))) =
       (\<lambda>td. toString (tokenIndex td)) ` set example_batch
   \<and> distinct (Map_keys (tokens (resolve_entities example_ctx example_batch)))"
proof -
  note t = resolver_maps_exact[of example_ctx example_batch]
  have len: "(0::nat) < length example_batch" "1 < length example_batch"
    by (simp_all add: example_batch_def)
  have ix: "tokenIndex (example_batch ! 0) = tokenIndex (example_batch ! 1)"
    "event_from (example_batch ! 1) = event_to (example_batch ! 0)"
    by (simp_all add: example_batch_def example_event_def)
  note pairs = t[THEN conjunct2, THEN conjunct2, THEN conjunct2, THEN conjunct2,
      THEN conjunct2, THEN conjunct2, THEN conjunct1]
  have w1: "transfer_token (transfers (resolve_entities example_ctx example_batch) ! 0) =
     transfer_token (transfers (resolve_entities example_ctx example_batch) ! 1)"
    using pairs[rule_format, OF len(1) len(2)] ix(1) by blast
  have w2: "transfer_from (transfers (resolve_entities example_ctx example_batch) ! 1) =
     transfer_to (transfers (resolve_entities example_ctx example_batch) ! 0)"
    using pairs[rule_format, OF len(2) len(1)] ix(2) by blast
  have k1: "Map_keys (owners (resolve_entities example_ctx example_batch)) = [''0xb'', ''0xa'', ''0xc'']"
    and k2: "Map_keys (tokens (resolve_entities example_ctx example_batch)) = [''7'', ''5'']"
    unfolding example_resolved by (simp_all add: Map_keys_def)
  have s: "event_from ` set example_batch \<union> event_to ` set example_batch = {''0xa'', ''0xb'', ''0xc''}"
    by (auto simp: example_batch_def example_event_def)
  note t1 = t[THEN conjunct1]
  note t2 = t[THEN conjunct2, THEN conjunct1]
  note t3 = t[THEN conjunct2, THEN conjunct2, THEN conjunct1]
  note t4 = t[THEN conjunct2, THEN conjunct2, THEN conjunct2, THEN conjunct1]
  show ?thesis
    by (intro conjI) (rule k1 s k2 len ix w1 w2 t1 t2 t3 t4)+
qed

section \<open>What initTokens did to the new tokens\<close>

lemma aggregate_Inr_nth:
  assumes "aggregate call args n = Inr us" "i < length args"
  shows "call (args ! i) = Some (us ! i)"
proof -
  from assms(1) have m: "map call args = map Some us"
    unfolding aggregate_def by (rule aggregate_calls_Inr)
  then have "length us = length args" by (metis length_map)
  with assms(2) m show ?thesis by (metis nth_map)
qed

lemma initTokens_result:
  assumes "initTokens cfg ctx toks heap = Some (tr, Inr heap')"
    and "distinct toks" "\<forall>r \<in> set toks. r < length heap"
  shows "\<exists>uris mds.
      aggregate (tokenURI ctx (last (blocks ctx))) (map (\<lambda>r. token_index (heap ! r)) toks)
        (MUTLTICALL_BATCH_SIZE cfg) = Inr uris
    \<and> length uris = length toks \<and> length mds = length toks
    \<and> (\<forall>i < length toks.
          fst (fetchTokenMetadata cfg ctx (uris ! i)) = Inr (mds ! i)
        \<and> assign_metadata (heap ! (toks ! i)) (Some (uris ! i)) (mds ! i) = Inr (heap' ! (toks ! i)))"
proof -
  from initTokens_Inr[OF assms(1)] obtain uris batches mds where
    ag: "aggregate (tokenURI ctx (last (blocks ctx))) (map (\<lambda>r. token_index (heap ! r)) toks)
        (MUTLTICALL_BATCH_SIZE cfg) = Inr uris"
    and sp: "splitIntoBatches uris (MAX_IPFS_REQ_SEC cfg) = Some batches"
    and rb: "run_batches cfg ctx batches = (groups tr, Inr mds)"
    and al: "assign_loop toks 0 uris mds heap = Inr heap'"
    by blast
  from aggregate_Inr_length[OF ag] have lu: "length uris = length toks" by simp
  from splitIntoBatches_concat[OF sp] have cc: "concat batches = uris" .
  from rb have "snd (run_batches cfg ctx batches) = Inr mds" by simp
  from run_batches_Inr[OF this] have fm: "map (\<lambda>u. fst (fetchTokenMetadata cfg ctx u)) uris = map Inr mds"
    unfolding cc .
  then have lm: "length mds = length toks" using lu by (metis length_map)
  note L = assign_loop_Inr[OF al assms(2,3)]
  have "\<forall>i < length toks.
          fst (fetchTokenMetadata cfg ctx (uris ! i)) = Inr (mds ! i)
        \<and> assign_metadata (heap ! (toks ! i)) (Some (uris ! i)) (mds ! i) = Inr (heap' ! (toks ! i))"
  proof (intro allI impI)
    fix i assume i: "i < length toks"
    from fm i lu lm have f: "fst (fetchTokenMetadata cfg ctx (uris ! i)) = Inr (mds ! i)"
      by (metis nth_map)
    from L i have "assign_metadata (heap ! (toks ! i)) (at_index uris (0 + i))
              (case at_index mds (0 + i) of None \<Rightarrow> None | Some m \<Rightarrow> m) = Inr (heap' ! (toks ! i))"
      by blast
    then have "assign_metadata (heap ! (toks ! i)) (Some (uris ! i)) (mds ! i) = Inr (heap' ! (toks ! i))"
      using i lu lm by (simp add: at_index_def)
    with f show "fst (fetchTokenMetadata cfg ctx (uris ! i)) = Inr (mds ! i)
        \<and> assign_metadata (heap ! (toks ! i)) (Some (uris ! i)) (mds ! i) = Inr (heap' ! (toks ! i))"
      by simp
  qed
  with ag lu lm show ?thesis by blast
qed

lemma assign_metadata_fields:
  assumes "assign_metadata t u md = Inr t'"
  shows "token_uri t' = u" and "token_image t' = optional_image md"
    and "optional_attributes md = Inr (token_attributes t')"
  using assms by (auto simp: assign_metadata_def split: sum.splits)

text \<open>What a run of \<^verbatim>\<open>processTransfers\<close> that returns did to its new tokens.\<close>

lemma processTransfers_result:
  assumes "processTransfers cfg ctx tds = Some (tr, Inr (st', ups))"
  shows "\<exists>uris mds.
      batch_tokenURIs cfg ctx tds = Inr uris
    \<and> newTokens st' = newTokens (resolve_entities ctx tds)
    \<and> length uris = length (newTokens st') \<and> length mds = length (newTokens st')
    \<and> (\<forall>i < length (newTokens st').
          fst (fetchTokenMetadata cfg ctx (uris ! i)) = Inr (mds ! i)
        \<and> tokenURI ctx (last (blocks ctx))
             (token_index (token_heap (resolve_entities ctx tds) ! (newTokens st' ! i))) = Some (uris ! i)
        \<and> assign_metadata (token_heap (resolve_entities ctx tds) ! (newTokens st' ! i))
             (Some (uris ! i)) (mds ! i) = Inr (token_heap st' ! (newTokens st' ! i)))"
proof -
  let ?st = "resolve_entities ctx tds"
  from processTransfers_Inr[OF assms] obtain heap' where
    i: "initTokens cfg ctx (newTokens ?st) (token_heap ?st) = Some (tr, Inr heap')"
    and s: "st' = ?st\<lparr>token_heap := heap'\<rparr>" by blast
  have inv: "resolver_inv ?st" by (rule replayedD(1)[OF replayed_resolve])
  from initTokens_result[OF i resolver_newTokens_bounds[OF inv]] obtain uris mds where
    ag: "aggregate (tokenURI ctx (last (blocks ctx)))
           (map (\<lambda>r. token_index (token_heap ?st ! r)) (newTokens ?st)) (MUTLTICALL_BATCH_SIZE cfg) = Inr uris"
    and lu: "length uris = length (newTokens ?st)" and lm: "length mds = length (newTokens ?st)"
    and each: "\<forall>i < length (newTokens ?st).
          fst (fetchTokenMetadata cfg ctx (uris ! i)) = Inr (mds ! i)
        \<and> assign_metadata (token_heap ?st ! (newTokens ?st ! i)) (Some (uris ! i)) (mds ! i) =
            Inr (heap' ! (newTokens ?st ! i))"
    by blast
  have nt: "newTokens st' = newTokens ?st" and th: "token_heap st' = heap'" by (simp_all add: s)
  have "\<forall>i < length (newTokens st').
          fst (fetchTokenMetadata cfg ctx (uris ! i)) = Inr (mds ! i)
        \<and> tokenURI ctx (last (blocks ctx))
             (token_index (token_heap ?st ! (newTokens st' ! i))) = Some (uris ! i)
        \<and> assign_metadata (token_heap ?st ! (newTokens st' ! i))
             (Some (uris ! i)) (mds ! i) = Inr (token_heap st' ! (newTokens st' ! i))"
  proof (intro allI impI)
    fix k assume k: "k < length (newTokens st')"
    then have k': "k < length (map (\<lambda>r. token_index (token_heap ?st ! r)) (newTokens ?st))"
      by (simp add: nt)
    from aggregate_Inr_nth[OF ag k'] k
    have "tokenURI ctx (last (blocks ctx)) (token_index (token_heap ?st ! (newTokens st' ! k))) = Some (uris ! k)"
      by (simp add: nt)
    with each k show "fst (fetchTokenMetadata cfg ctx (uris ! k)) = Inr (mds ! k)
        \<and> tokenURI ctx (last (blocks ctx))
             (token_index (token_heap ?st ! (newTokens st' ! k))) = Some (uris ! k)
        \<and> assign_metadata (token_heap ?st ! (newTokens st' ! k))
             (Some (uris ! k)) (mds ! k) = Inr (token_heap st' ! (newTokens st' ! k))"
      by (simp add: nt th)
  qed
  moreover have "batch_tokenURIs cfg ctx tds = Inr uris" using ag by (simp add: batch_tokenURIs_def)
  ultimately show ?thesis using nt lu lm by auto
qed

lemma fetch_unsupported:
  assumes "\<not> startsWith uri ''ipfs://''" "\<not> startsWith uri ''http://''" "\<not> startsWith uri ''https://''"
  shows "fetchTokenMetadata cfg ctx uri = (Inr None, [])"
  using assms by (simp add: fetchTokenMetadata_def)

section \<open>The fields of a new token\<close>

lemma example_processed:
  "processTransfers main_config example_ctx example_batch =
   Some (\<lparr>calls = [5], groups = [\<lparr>timers = [(40, ''ftp://x'')], requests = []\<rparr>]\<rparr>,
         Inr (example_final, flush example_final))"
  by code_simp

lemma example_tokenURIs: "batch_tokenURIs main_config example_ctx example_batch = Inr [''ftp://x'']"
  by code_simp

text \<open>Claim C10. When \<^verbatim>\<open>processTransfers\<close> returns, the \<^verbatim>\<open>uri\<close> of the new token at
  position \<open>i\<close> is the \<open>i\<close>-th result of the multicall, which is the contract's
  \<^verbatim>\<open>tokenURI\<close> of its index, whatever the metadata fetch gave; where the fetch was
  skipped, the image and the attributes are unset beside it.\<close>

theorem new_token_uri_assigned:
  assumes "processTransfers cfg ctx tds = Some (tr, Inr (st', ups))"
    and "i < length (newTokens st')"
  shows "\<exists>uris. batch_tokenURIs cfg ctx tds = Inr uris
    \<and> length uris = length (newTokens st')
    \<and> tokenURI ctx (last (blocks ctx))
         (token_index (token_heap st' ! (newTokens st' ! i))) = Some (uris ! i)
    \<and> token_uri (token_heap st' ! (newTokens st' ! i)) = Some (uris ! i)
    \<and> (fst (fetchTokenMetadata cfg ctx (uris ! i)) = Inr None \<longrightarrow>
         token_uri (token_heap st' ! (newTokens st' ! i)) = Some (uris ! i)
       \<and> token_image (token_heap st' ! (newTokens st' ! i)) = None
       \<and> token_attributes (token_heap st' ! (newTokens st' ! i)) = None)"
proof -
  from processTransfers_result[OF assms(1)] obtain uris mds where
    u: "batch_tokenURIs cfg ctx tds = Inr uris"
    and lu: "length uris = length (newTokens st')"
    and each: "\<forall>i < length (newTokens st').
          fst (fetchTokenMetadata cfg ctx (uris ! i)) = Inr (mds ! i)
        \<and> tokenURI ctx (last (blocks ctx))
             (token_index (token_heap (resolve_entities ctx tds) ! (newTokens st' ! i))) = Some (uris ! i)
        \<and> assign_metadata (token_heap (resolve_entities ctx tds) ! (newTokens st' ! i))
             (Some (uris ! i)) (mds ! i) = Inr (token_heap st' ! (newTokens st' ! i))"
    by blast
  from each assms(2) have f: "fst (fetchTokenMetadata cfg ctx (uris ! i)) = Inr (mds ! i)"
    and c: "tokenURI ctx (last (blocks ctx))
             (token_index (token_heap (resolve_entities ctx tds) ! (newTokens st' ! i))) = Some (uris ! i)"
    and a: "assign_metadata (token_heap (resolve_entities ctx tds) ! (newTokens st' ! i))
             (Some (uris ! i)) (mds ! i) = Inr (token_heap st' ! (newTokens st' ! i))"
    by blast+
  note k = assign_metadata_keeps[OF a]
  note fl = assign_metadata_fields[OF a]
  have c': "tokenURI ctx (last (blocks ctx))
         (token_index (token_heap st' ! (newTokens st' ! i))) = Some (uris ! i)"
    using c k by simp
  have skipped: "fst (fetchTokenMetadata cfg ctx (uris ! i)) = Inr None \<longrightarrow>
         token_uri (token_heap st' ! (newTokens st' ! i)) = Some (uris ! i)
       \<and> token_image (token_heap st' ! (newTokens st' ! i)) = None
       \<and> token_attributes (token_heap st' ! (newTokens st' ! i)) = None"
  proof
    assume "fst (fetchTokenMetadata cfg ctx (uris ! i)) = Inr None"
    with f have "mds ! i = None" by simp
    with fl show "token_uri (token_heap st' ! (newTokens st' ! i)) = Some (uris ! i)
       \<and> token_image (token_heap st' ! (newTokens st' ! i)) = None
       \<and> token_attributes (token_heap st' ! (newTokens st' ! i)) = None"
      by (simp add: optional_image_def optional_attributes_def)
  qed
  show ?thesis using u lu c' fl(1) skipped by blast
qed

text \<open>Token 5 of the example batch: its URI is \<^verbatim>\<open>ftp://x\<close>, which is not fetched.\<close>

theorem new_token_uri_assigned_witness:
  "processTransfers main_config example_ctx example_batch =
     Some (\<lparr>calls = [5], groups = [\<lparr>timers = [(40, ''ftp://x'')], requests = []\<rparr>]\<rparr>,
           Inr (example_final, flush example_final))
   \<and> (0::nat) < length (newTokens example_final)
   \<and> batch_tokenURIs main_config example_ctx example_batch = Inr [''ftp://x'']
   \<and> fst (fetchTokenMetadata main_config example_ctx ''ftp://x'') = Inr None
   \<and> token_uri (token_heap example_final ! (newTokens example_final ! 0)) = Some ''ftp://x''
   \<and> token_image (token_heap example_final ! (newTokens example_final ! 0)) = None
   \<and> token_attributes (token_heap example_final ! (newTokens example_final ! 0)) = None"
proof -
  have l: "(0::nat) < length (newTokens example_final)" by (simp add: example_final_def)
  have f: "fst (fetchTokenMetadata main_config example_ctx ''ftp://x'') = Inr None"
    by (simp add: fetchTokenMetadata_def startsWith_def)
  from new_token_uri_assigned[OF example_processed l] obtain uris where
    u: "batch_tokenURIs main_config example_ctx example_batch = Inr uris"
    and t: "token_uri (token_heap example_final ! (newTokens example_final ! 0)) = Some (uris ! 0)"
    and s: "fst (fetchTokenMetadata main_config example_ctx (uris ! 0)) = Inr None \<longrightarrow>
         token_uri (token_heap example_final ! (newTokens example_final ! 0)) = Some (uris ! 0)
       \<and> token_image (token_heap example_final ! (newTokens example_final ! 0)) = None
       \<and> token_attributes (token_heap example_final ! (newTokens example_final ! 0)) = None"
    by blast
  from u example_tokenURIs have "uris = [''ftp://x'']" by simp
  with t s f u show ?thesis using example_processed l by simp
qed

text \<open>Claim C7. For a URI that starts with none of \<^verbatim>\<open>ipfs://\<close>, \<^verbatim>\<open>http://\<close> and
  \<^verbatim>\<open>https://\<close>, \<^verbatim>\<open>fetchTokenMetadata\<close> returns \<open>undefined\<close>, throws nothing and
  requests nothing; when \<^verbatim>\<open>processTransfers\<close> returns, the image and the attributes of
  the token with this URI are unset.\<close>

theorem unsupported_scheme_skipped:
  assumes "\<not> startsWith uri ''ipfs://''" "\<not> startsWith uri ''http://''" "\<not> startsWith uri ''https://''"
  shows "fetchTokenMetadata cfg ctx uri = (Inr None, [])
    \<and> (\<forall>tds tr st' ups uris i.
         processTransfers cfg ctx tds = Some (tr, Inr (st', ups)) \<longrightarrow>
         batch_tokenURIs cfg ctx tds = Inr uris \<longrightarrow> i < length (newTokens st') \<longrightarrow> uris ! i = uri \<longrightarrow>
           token_image (token_heap st' ! (newTokens st' ! i)) = None
         \<and> token_attributes (token_heap st' ! (newTokens st' ! i)) = None)"
proof (intro conjI allI impI)
  show f: "fetchTokenMetadata cfg ctx uri = (Inr None, [])" by (rule fetch_unsupported[OF assms])
  fix tds tr st' ups uris i
  assume p: "processTransfers cfg ctx tds = Some (tr, Inr (st', ups))"
    and u: "batch_tokenURIs cfg ctx tds = Inr uris"
    and i: "i < length (newTokens st')" and ui: "uris ! i = uri"
  from processTransfers_result[OF p] obtain uris' mds where
    u': "batch_tokenURIs cfg ctx tds = Inr uris'"
    and each': "\<forall>i < length (newTokens st').
          fst (fetchTokenMetadata cfg ctx (uris' ! i)) = Inr (mds ! i)
        \<and> tokenURI ctx (last (blocks ctx))
             (token_index (token_heap (resolve_entities ctx tds) ! (newTokens st' ! i))) = Some (uris' ! i)
        \<and> assign_metadata (token_heap (resolve_entities ctx tds) ! (newTokens st' ! i))
             (Some (uris' ! i)) (mds ! i) = Inr (token_heap st' ! (newTokens st' ! i))"
    by blast
  from u u' have "uris' = uris" by simp
  with each' have
    each: "\<forall>i < length (newTokens st').
          fst (fetchTokenMetadata cfg ctx (uris ! i)) = Inr (mds ! i)
        \<and> tokenURI ctx (last (blocks ctx))
             (token_index (token_heap (resolve_entities ctx tds) ! (newTokens st' ! i))) = Some (uris ! i)
        \<and> assign_metadata (token_heap (resolve_entities ctx tds) ! (newTokens st' ! i))
             (Some (uris ! i)) (mds ! i) = Inr (token_heap st' ! (newTokens st' ! i))"
    by simp
  from each i have fm: "fst (fetchTokenMetadata cfg ctx (uris ! i)) = Inr (mds ! i)"
    and a: "assign_metadata (token_heap (resolve_entities ctx tds) ! (newTokens st' ! i))
             (Some (uris ! i)) (mds ! i) = Inr (token_heap st' ! (newTokens st' ! i))"
    by blast+
  from fm f ui have "mds ! i = None" by simp
  with assign_metadata_fields[OF a]
  show "token_image (token_heap st' ! (newTokens st' ! i)) = None"
    and "token_attributes (token_heap st' ! (newTokens st' ! i)) = None"
    by (simp_all add: optional_image_def optional_attributes_def)
qed

text \<open>The URI \<^verbatim>\<open>ftp://x\<close> of the scenario, and the example batch whose new token has it.\<close>

theorem unsupported_scheme_skipped_witness:
  "\<not> startsWith ''ftp://x'' ''ipfs://'' \<and> \<not> startsWith ''ftp://x'' ''http://''
   \<and> \<not> startsWith ''ftp://x'' ''https://''
   \<and> fetchTokenMetadata main_config example_ctx ''ftp://x'' = (Inr None, [])
   \<and> processTransfers main_config example_ctx example_batch =
       Some (\<lparr>calls = [5], groups = [\<lparr>timers = [(40, ''ftp://x'')], requests = []\<rparr>]\<rparr>,
             Inr (example_final, flush example_final))
   \<and> batch_tokenURIs main_config example_ctx example_batch = Inr [''ftp://x'']
   \<and> (0::nat) < length (newTokens example_final)
   \<and> [''ftp://x''] ! 0 = ''ftp://x''
   \<and> token_image (token_heap example_final ! (newTokens example_final ! 0)) = None
   \<and> token_attributes (token_heap example_final ! (newTokens example_final ! 0)) = None"
proof -
  have n: "\<not> startsWith ''ftp://x'' ''ipfs://''" "\<not> startsWith ''ftp://x'' ''http://''"
    "\<not> startsWith ''ftp://x'' ''https://''"
    by (simp_all add: startsWith_def)
  have l: "(0::nat) < length (newTokens example_final)" by (simp add: example_final_def)
  note t = unsupported_scheme_skipped[OF n, of main_config example_ctx]
  from t have f: "fetchTokenMetadata main_config example_ctx ''ftp://x'' = (Inr None, [])" by blast
  from t[THEN conjunct2, rule_format, OF example_processed example_tokenURIs l]
  have "token_image (token_heap example_final ! (newTokens example_final ! 0)) = None
      \<and> token_attributes (token_heap example_final ! (newTokens example_final ! 0)) = None"
    by simp
  with n f l example_processed example_tokenURIs show ?thesis by simp
qed

section \<open>Traces and termination of initTokens\<close>

lemma splitIntoBatches_total:
  assumes "1 \<le> m"
  shows "\<exists>bs. splitIntoBatches xs m = Some bs \<and> bs \<noteq> [] \<and> concat bs = xs
            \<and> (\<forall>b \<in> set bs. length b \<le> m)
            \<and> (\<forall>i. Suc i < length bs \<longrightarrow> length (bs ! i) = m)"
proof (cases "length xs \<le> m")
  case True
  then show ?thesis by (simp add: splitIntoBatches_def)
next
  case False
  from assms have "0 < m" by simp
  from batches_from_partition[OF this, of xs 0] False show ?thesis
    by (auto simp: splitIntoBatches_def)
qed

lemma run_batches_trace:
  "\<exists>n. n \<le> length bs
     \<and> fst (run_batches cfg ctx bs) = map (\<lambda>b. fst (run_group cfg ctx b)) (take n bs)
     \<and> (\<forall>g. Suc g < n \<longrightarrow> (\<exists>m. snd (run_group cfg ctx (bs ! g)) = Inr m))
     \<and> (case snd (run_batches cfg ctx bs) of
           Inr ms \<Rightarrow> n = length bs
         | Inl e \<Rightarrow> 0 < n \<and> snd (run_group cfg ctx (bs ! (n - 1))) = Inl e)"
proof (induction bs)
  case Nil
  show ?case by simp
next
  case (Cons b bs)
  obtain g r where g: "run_group cfg ctx b = (g, r)" by (cases "run_group cfg ctx b")
  obtain gs r' where gs: "run_batches cfg ctx bs = (gs, r')" by (cases "run_batches cfg ctx bs")
  show ?case
  proof (cases r)
    case (Inl e)
    have "fst (run_batches cfg ctx (b # bs)) = map (\<lambda>b. fst (run_group cfg ctx b)) (take 1 (b # bs))"
      and "snd (run_batches cfg ctx (b # bs)) = Inl e"
      using g Inl by simp_all
    then show ?thesis using g Inl
      by (intro exI[of _ 1]) simp
  next
    case (Inr m)
    from Cons.IH obtain n where n: "n \<le> length bs"
      and tr: "fst (run_batches cfg ctx bs) = map (\<lambda>b. fst (run_group cfg ctx b)) (take n bs)"
      and ok: "\<forall>g. Suc g < n \<longrightarrow> (\<exists>m. snd (run_group cfg ctx (bs ! g)) = Inr m)"
      and fin: "(case snd (run_batches cfg ctx bs) of
           Inr ms \<Rightarrow> n = length bs
         | Inl e \<Rightarrow> 0 < n \<and> snd (run_group cfg ctx (bs ! (n - 1))) = Inl e)"
      by blast
    have f: "fst (run_batches cfg ctx (b # bs)) = g # gs"
      using g gs Inr by (simp split: sum.splits)
    have s: "snd (run_batches cfg ctx (b # bs)) = (case r' of Inl e \<Rightarrow> Inl e | Inr ms \<Rightarrow> Inr (m @ ms))"
      using g gs Inr by (simp split: sum.splits)
    have q1: "Suc n \<le> length (b # bs)" using n by simp
    have q2: "fst (run_batches cfg ctx (b # bs)) =
        map (\<lambda>b. fst (run_group cfg ctx b)) (take (Suc n) (b # bs))"
    proof -
      from tr gs have "gs = map (\<lambda>b. fst (run_group cfg ctx b)) (take n bs)" by simp
      moreover have "fst (run_group cfg ctx b) = g" using g by simp
      ultimately show ?thesis unfolding f by simp
    qed
    have q3: "\<forall>j. Suc j < Suc n \<longrightarrow> (\<exists>m. snd (run_group cfg ctx ((b # bs) ! j)) = Inr m)"
    proof (intro allI impI)
      fix j assume j: "Suc j < Suc n"
      show "\<exists>m. snd (run_group cfg ctx ((b # bs) ! j)) = Inr m"
      proof (cases j)
        case 0
        then show ?thesis using g Inr by simp
      next
        case (Suc k)
        with j ok show ?thesis by simp
      qed
    qed
    have q4: "(case snd (run_batches cfg ctx (b # bs)) of
           Inr ms \<Rightarrow> Suc n = length (b # bs)
         | Inl e \<Rightarrow> 0 < Suc n \<and> snd (run_group cfg ctx ((b # bs) ! (Suc n - 1))) = Inl e)"
    proof (cases r')
      case (Inl e)
      with fin gs have "0 < n" "snd (run_group cfg ctx (bs ! (n - 1))) = Inl e" by simp_all
      then have "snd (run_group cfg ctx ((b # bs) ! n)) = Inl e" by (cases n) simp_all
      then show ?thesis using s Inl by simp
    next
      case (Inr ms)
      with fin gs have "n = length bs" by simp
      then show ?thesis using s Inr by simp
    qed
    show ?thesis using q1 q2 q3 q4 by blast
  qed
qed

lemma initTokens_unfold:
  assumes "blocks ctx \<noteq> []"
    and "aggregate (tokenURI ctx (last (blocks ctx))) (map (\<lambda>r. token_index (heap ! r)) toks)
           (MUTLTICALL_BATCH_SIZE cfg) = Inr uris"
    and "splitIntoBatches uris (MAX_IPFS_REQ_SEC cfg) = Some batches"
  shows "initTokens cfg ctx toks heap =
     Some (\<lparr>calls = map (\<lambda>r. token_index (heap ! r)) toks, groups = fst (run_batches cfg ctx batches)\<rparr>,
           case snd (run_batches cfg ctx batches) of
             Inl e \<Rightarrow> Inl e
           | Inr mds \<Rightarrow> assign_loop toks 0 uris mds heap)"
  using assms
  by (cases "run_batches cfg ctx batches") (simp add: initTokens_def Let_def split: sum.splits)

lemma processTransfers_unfold:
  "processTransfers cfg ctx tds =
     (case initTokens cfg ctx (newTokens (resolve_entities ctx tds)) (token_heap (resolve_entities ctx tds)) of
        None \<Rightarrow> None
      | Some (tr, Inl e) \<Rightarrow> Some (tr, Inl e)
      | Some (tr, Inr heap) \<Rightarrow>
          Some (tr, Inr ((resolve_entities ctx tds)\<lparr>token_heap := heap\<rparr>,
                         flush ((resolve_entities ctx tds)\<lparr>token_heap := heap\<rparr>))))"
  by (simp add: processTransfers_def Let_def split: option.splits sum.splits prod.splits)




section \<open>The URL requested for an IPFS URI\<close>

lemma run_group_timers: "map snd (timers (fst (run_group cfg ctx b))) = b"
proof -
  have e: "snd \<circ> (\<lambda>(index, uri). (sleep_ms cfg index, uri)) = snd" by auto
  show ?thesis by (simp add: run_group_def e)
qed

lemma fetch_rejection_wrapped:
  assumes "fst (fetchTokenMetadata cfg ctx uri) = Inl x"
  shows "\<exists>e. x = fetch_failure uri e"
  using assms
  by (auto simp: fetchTokenMetadata_def Let_def split: if_splits option.splits sum.splits)

lemma fetch_rejection_form:
  assumes "fst (fetchTokenMetadata cfg ctx uri) = Inl x"
  shows "\<exists>e. x = Error (''failed to fetch metadata at '' @ uri @ ''. Error: '' @ render e)"
  using fetch_rejection_wrapped[OF assms] unfolding fetch_failure_def .


lemma run_batches_some_Inl:
  assumes "u \<in> set (concat bs)" "fst (fetchTokenMetadata cfg ctx u) = Inl x"
  shows "\<exists>y. snd (run_batches cfg ctx bs) = Inl y"
proof (cases "snd (run_batches cfg ctx bs)")
  case (Inl e)
  then show ?thesis by blast
next
  case (Inr ms)
  from run_batches_Inr[OF this] have "map (\<lambda>u. fst (fetchTokenMetadata cfg ctx u)) (concat bs) = map Inr ms" .
  then have "fst (fetchTokenMetadata cfg ctx u) \<in> set (map Inr ms)"
    using assms(1) by (metis (no_types, lifting) image_eqI list.set_map)
  with assms(2) show ?thesis by auto
qed

text \<open>Claim C5, at the input of its scenario: the gateway base and the content path are
  joined as a file path, which leaves one slash after the scheme.\<close>

theorem ipfs_gateway_url_example:
  "snd (fetchTokenMetadata (main_config\<lparr>IPFS_GATEWAY := ''https://gw.example/ipfs/''\<rparr>) ctx ''ipfs://Qm123'')
     = [''https:/gw.example/ipfs/Qm123'']
   \<and> ''https:/gw.example/ipfs/Qm123'' \<noteq> ''https://gw.example/ipfs/'' @ ''Qm123''"
proof -
  have j: "posix_join [''https://gw.example/ipfs/'', ''Qm123''] = ''https:/gw.example/ipfs/Qm123''"
    by code_simp
  have r: "ipfsRegExp_exec ''ipfs://Qm123'' = Some ''Qm123''" by code_simp
  have s: "startsWith ''ipfs://Qm123'' ''ipfs://''" by (simp add: startsWith_def)
  show ?thesis
    by (cases "client_get ctx ''https:/gw.example/ipfs/Qm123''")
       (simp_all add: fetchTokenMetadata_def j r s)
qed

section \<open>Failing fetches\<close>

lemma processTransfers_forward:
  assumes R: "1 \<le> MAX_IPFS_REQ_SEC cfg" and B: "blocks ctx \<noteq> []"
    and U: "batch_tokenURIs cfg ctx tds = Inr uris"
  shows "\<exists>batches. splitIntoBatches uris (MAX_IPFS_REQ_SEC cfg) = Some batches
     \<and> batches \<noteq> [] \<and> concat batches = uris
     \<and> (\<forall>b \<in> set batches. length b \<le> MAX_IPFS_REQ_SEC cfg)
     \<and> initTokens cfg ctx (newTokens (resolve_entities ctx tds)) (token_heap (resolve_entities ctx tds)) =
         Some (\<lparr>calls = map (\<lambda>r. token_index (token_heap (resolve_entities ctx tds) ! r))
                          (newTokens (resolve_entities ctx tds)),
                groups = fst (run_batches cfg ctx batches)\<rparr>,
               case snd (run_batches cfg ctx batches) of
                 Inl e \<Rightarrow> Inl e
               | Inr mds \<Rightarrow> assign_loop (newTokens (resolve_entities ctx tds)) 0 uris mds
                              (token_heap (resolve_entities ctx tds)))"
proof -
  from splitIntoBatches_total[OF R, of uris] obtain batches where
    sp: "splitIntoBatches uris (MAX_IPFS_REQ_SEC cfg) = Some batches"
    and ne: "batches \<noteq> []" and cc: "concat batches = uris"
    and le: "\<forall>b \<in> set batches. length b \<le> MAX_IPFS_REQ_SEC cfg" by blast
  from U have ag: "aggregate (tokenURI ctx (last (blocks ctx)))
       (map (\<lambda>r. token_index (token_heap (resolve_entities ctx tds) ! r))
          (newTokens (resolve_entities ctx tds)))
       (MUTLTICALL_BATCH_SIZE cfg) = Inr uris"
    by (simp add: batch_tokenURIs_def)
  from initTokens_unfold[OF B ag sp] sp ne cc le show ?thesis by blast
qed

text \<open>Claim C8. Whatever \<^verbatim>\<open>fetchTokenMetadata\<close> throws is an \<^verbatim>\<open>Error\<close> whose message names
  the URI, and a failure of \<^verbatim>\<open>client.get\<close> is thrown so, for an HTTP and for an IPFS URI.
  When the fetch of one URI of a batch throws, \<^verbatim>\<open>processTransfers\<close> throws the error of a URI
  of the batch and flushes nothing: the groups before the one that failed had fetched all their
  items, the failing group is the last one started, and no token receives a field.\<close>

theorem fetch_failure_aborts_batch:
  "(\<forall>x. fst (fetchTokenMetadata cfg ctx uri) = Inl x \<longrightarrow>
       (\<exists>e. x = Error (''failed to fetch metadata at '' @ uri @ ''. Error: '' @ render e)))
   \<and> (\<forall>e. \<not> startsWith uri ''ipfs://'' \<longrightarrow> startsWith uri ''http://'' \<or> startsWith uri ''https://'' \<longrightarrow>
         client_get ctx uri = Inl e \<longrightarrow>
         fst (fetchTokenMetadata cfg ctx uri) =
           Inl (Error (''failed to fetch metadata at '' @ uri @ ''. Error: '' @ render e)))
   \<and> (\<forall>e cid. startsWith uri ''ipfs://'' \<longrightarrow> ipfsRegExp_exec uri = Some cid \<longrightarrow>
         client_get ctx (posix_join [IPFS_GATEWAY cfg, cid]) = Inl e \<longrightarrow>
         fst (fetchTokenMetadata cfg ctx uri) =
           Inl (Error (''failed to fetch metadata at '' @ uri @ ''. Error: '' @ render e)))
   \<and> (\<forall>tds uris x. 1 \<le> MAX_IPFS_REQ_SEC cfg \<longrightarrow> blocks ctx \<noteq> [] \<longrightarrow>
         batch_tokenURIs cfg ctx tds = Inr uris \<longrightarrow> uri \<in> set uris \<longrightarrow>
         fst (fetchTokenMetadata cfg ctx uri) = Inl x \<longrightarrow>
         (\<exists>tr y v batches.
            processTransfers cfg ctx tds = Some (tr, Inl y)
          \<and> v \<in> set uris \<and> fst (fetchTokenMetadata cfg ctx v) = Inl y
          \<and> splitIntoBatches uris (MAX_IPFS_REQ_SEC cfg) = Some batches
          \<and> 0 < length (groups tr) \<and> length (groups tr) \<le> length batches
          \<and> map (\<lambda>g. map snd (timers g)) (groups tr) = take (length (groups tr)) batches
          \<and> v \<in> set (batches ! (length (groups tr) - 1))
          \<and> (\<forall>g. Suc g < length (groups tr) \<longrightarrow>
                (\<forall>u \<in> set (batches ! g). \<exists>md. fst (fetchTokenMetadata cfg ctx u) = Inr md))))"
proof (intro conjI allI impI)
  fix x assume "fst (fetchTokenMetadata cfg ctx uri) = Inl x"
  then show "\<exists>e. x = Error (''failed to fetch metadata at '' @ uri @ ''. Error: '' @ render e)"
    by (rule fetch_rejection_form)
next
  fix e
  assume "\<not> startsWith uri ''ipfs://''" "startsWith uri ''http://'' \<or> startsWith uri ''https://''"
    "client_get ctx uri = Inl e"
  then show "fst (fetchTokenMetadata cfg ctx uri) =
           Inl (Error (''failed to fetch metadata at '' @ uri @ ''. Error: '' @ render e))"
    by (auto simp: fetchTokenMetadata_def fetch_failure_def)
next
  fix e cid
  assume "startsWith uri ''ipfs://''" "ipfsRegExp_exec uri = Some cid"
    "client_get ctx (posix_join [IPFS_GATEWAY cfg, cid]) = Inl e"
  then show "fst (fetchTokenMetadata cfg ctx uri) =
           Inl (Error (''failed to fetch metadata at '' @ uri @ ''. Error: '' @ render e))"
    by (simp add: fetchTokenMetadata_def fetch_failure_def Let_def)
next
  fix tds uris x
  assume R: "1 \<le> MAX_IPFS_REQ_SEC cfg" and B: "blocks ctx \<noteq> []"
    and U: "batch_tokenURIs cfg ctx tds = Inr uris" and mem: "uri \<in> set uris"
    and rej: "fst (fetchTokenMetadata cfg ctx uri) = Inl x"
  let ?st = "resolve_entities ctx tds"
  from processTransfers_forward[OF R B U] obtain batches where
    sp: "splitIntoBatches uris (MAX_IPFS_REQ_SEC cfg) = Some batches"
    and cc: "concat batches = uris"
    and it: "initTokens cfg ctx (newTokens ?st) (token_heap ?st) =
         Some (\<lparr>calls = map (\<lambda>r. token_index (token_heap ?st ! r)) (newTokens ?st),
                groups = fst (run_batches cfg ctx batches)\<rparr>,
               case snd (run_batches cfg ctx batches) of
                 Inl e \<Rightarrow> Inl e
               | Inr mds \<Rightarrow> assign_loop (newTokens ?st) 0 uris mds (token_heap ?st))"
    by blast
  from mem cc have "uri \<in> set (concat batches)" by simp
  from run_batches_some_Inl[OF this rej] obtain y where y: "snd (run_batches cfg ctx batches) = Inl y"
    by blast
  let ?tr = "\<lparr>calls = map (\<lambda>r. token_index (token_heap ?st ! r)) (newTokens ?st),
                groups = fst (run_batches cfg ctx batches)\<rparr>"
  have pt: "processTransfers cfg ctx tds = Some (?tr, Inl y)"
    unfolding processTransfers_unfold it y by simp
  from run_batches_trace[of batches cfg ctx] y obtain n where
    n: "n \<le> length batches"
    and tr: "fst (run_batches cfg ctx batches) = map (\<lambda>b. fst (run_group cfg ctx b)) (take n batches)"
    and ok: "\<forall>g. Suc g < n \<longrightarrow> (\<exists>m. snd (run_group cfg ctx (batches ! g)) = Inr m)"
    and pos: "0 < n" and last: "snd (run_group cfg ctx (batches ! (n - 1))) = Inl y"
    by auto
  have len: "length (groups ?tr) = n" using tr n by simp
  from run_group_Inl[OF last] obtain v where
    v: "v \<in> set (batches ! (n - 1))" "fst (fetchTokenMetadata cfg ctx v) = Inl y" by blast
  from v(1) pos n have "v \<in> set (concat batches)"
    by (metis Suc_pred' in_set_conv_nth less_eq_Suc_le set_concat UN_I)
  then have vu: "v \<in> set uris" using cc by simp
  have tm: "map (\<lambda>g. map snd (timers g)) (groups ?tr) = take (length (groups ?tr)) batches"
    unfolding len by (simp add: tr comp_def run_group_timers)
  have before: "\<forall>g. Suc g < length (groups ?tr) \<longrightarrow>
                (\<forall>u \<in> set (batches ! g). \<exists>md. fst (fetchTokenMetadata cfg ctx u) = Inr md)"
  proof (intro allI impI ballI)
    fix g u assume g: "Suc g < length (groups ?tr)" and u: "u \<in> set (batches ! g)"
    from g ok len obtain m where "snd (run_group cfg ctx (batches ! g)) = Inr m" by auto
    then have "map (\<lambda>u. fst (fetchTokenMetadata cfg ctx u)) (batches ! g) = map Inr m"
      by (simp add: run_group_Inr)
    then have "fst (fetchTokenMetadata cfg ctx u) \<in> set (map Inr m)"
      using u by (metis (no_types, lifting) image_eqI list.set_map)
    then show "\<exists>md. fst (fetchTokenMetadata cfg ctx u) = Inr md" by auto
  qed
  have q5: "0 < length (groups ?tr)" and q6: "length (groups ?tr) \<le> length batches"
    and q8: "v \<in> set (batches ! (length (groups ?tr) - 1))"
    using len pos n v(1) by simp_all
  show "\<exists>tr y v batches.
            processTransfers cfg ctx tds = Some (tr, Inl y)
          \<and> v \<in> set uris \<and> fst (fetchTokenMetadata cfg ctx v) = Inl y
          \<and> splitIntoBatches uris (MAX_IPFS_REQ_SEC cfg) = Some batches
          \<and> 0 < length (groups tr) \<and> length (groups tr) \<le> length batches
          \<and> map (\<lambda>g. map snd (timers g)) (groups tr) = take (length (groups tr)) batches
          \<and> v \<in> set (batches ! (length (groups tr) - 1))
          \<and> (\<forall>g. Suc g < length (groups tr) \<longrightarrow>
                (\<forall>u \<in> set (batches ! g). \<exists>md. fst (fetchTokenMetadata cfg ctx u) = Inr md))"
    by (intro exI[of _ ?tr] exI[of _ y] exI[of _ v] exI[of _ batches] conjI)
       (rule pt vu v(2) sp q5 q6 tm q8 before)+
qed

lemma example_failing_tokenURIs:
  "batch_tokenURIs example_paced example_ctx example_failing_batch =
     Inr [''https://meta.example/6'', ''https://meta.example/9'', ''https://meta.example/10'',
          ''https://meta.example/11'', ''https://meta.example/12'']"
  by code_simp

lemma example_failing_processed:
  "processTransfers example_paced example_ctx example_failing_batch =
     Some (\<lparr>calls = [6, 9, 10, 11, 12],
            groups = [\<lparr>timers = [(500, ''https://meta.example/6''), (1000, ''https://meta.example/9'')],
                       requests = [''https://meta.example/6'', ''https://meta.example/9'']\<rparr>]\<rparr>,
           Inl (Error ''failed to fetch metadata at https://meta.example/9. Error: HttpError: 404''))"
  by code_simp

text \<open>The batch of five new tokens at two requests per second: the fetch for token 9, in the
  first of three groups, fails.\<close>

theorem fetch_failure_aborts_batch_witness:
  "\<not> startsWith ''https://meta.example/9'' ''ipfs://''
   \<and> startsWith ''https://meta.example/9'' ''https://''
   \<and> client_get example_ctx ''https://meta.example/9'' = Inl (ClientError ''HttpError: 404'')
   \<and> fst (fetchTokenMetadata example_paced example_ctx ''https://meta.example/9'') =
        Inl (Error (''failed to fetch metadata at '' @ ''https://meta.example/9'' @ ''. Error: '' @
                    render (ClientError ''HttpError: 404'')))
   \<and> 1 \<le> MAX_IPFS_REQ_SEC example_paced \<and> blocks example_ctx \<noteq> []
   \<and> batch_tokenURIs example_paced example_ctx example_failing_batch =
        Inr [''https://meta.example/6'', ''https://meta.example/9'', ''https://meta.example/10'',
             ''https://meta.example/11'', ''https://meta.example/12'']
   \<and> (\<exists>tr y v batches.
          processTransfers example_paced example_ctx example_failing_batch = Some (tr, Inl y)
        \<and> v \<in> set [''https://meta.example/6'', ''https://meta.example/9'', ''https://meta.example/10'',
                     ''https://meta.example/11'', ''https://meta.example/12'']
        \<and> fst (fetchTokenMetadata example_paced example_ctx v) = Inl y
        \<and> splitIntoBatches [''https://meta.example/6'', ''https://meta.example/9'',
              ''https://meta.example/10'', ''https://meta.example/11'', ''https://meta.example/12'']
              (MAX_IPFS_REQ_SEC example_paced) = Some batches
        \<and> 0 < length (groups tr) \<and> length (groups tr) \<le> length batches
        \<and> map (\<lambda>g. map snd (timers g)) (groups tr) = take (length (groups tr)) batches
        \<and> v \<in> set (batches ! (length (groups tr) - 1)))
   \<and> processTransfers example_paced example_ctx example_failing_batch =
        Some (\<lparr>calls = [6, 9, 10, 11, 12],
               groups = [\<lparr>timers = [(500, ''https://meta.example/6''), (1000, ''https://meta.example/9'')],
                          requests = [''https://meta.example/6'', ''https://meta.example/9'']\<rparr>]\<rparr>,
              Inl (Error ''failed to fetch metadata at https://meta.example/9. Error: HttpError: 404''))"
proof -
  note t = fetch_failure_aborts_batch[of example_paced example_ctx "''https://meta.example/9''"]
  have h1: "\<not> startsWith ''https://meta.example/9'' ''ipfs://''"
    and h2: "startsWith ''https://meta.example/9'' ''https://''"
    by (simp_all add: startsWith_def)
  have h3: "client_get example_ctx ''https://meta.example/9'' = Inl (ClientError ''HttpError: 404'')"
    by (simp add: example_ctx_def)
  from h2 have h2': "startsWith ''https://meta.example/9'' ''http://'' \<or>
      startsWith ''https://meta.example/9'' ''https://''" by simp
  from t[THEN conjunct2, THEN conjunct1, rule_format, OF h1 h2' h3]
  have f: "fst (fetchTokenMetadata example_paced example_ctx ''https://meta.example/9'') =
        Inl (Error (''failed to fetch metadata at '' @ ''https://meta.example/9'' @ ''. Error: '' @
                    render (ClientError ''HttpError: 404'')))" .
  have r: "1 \<le> MAX_IPFS_REQ_SEC example_paced"
    by (simp add: example_paced_def main_config_def)
  have b: "blocks example_ctx \<noteq> []" by (simp add: example_ctx_def)
  have m: "''https://meta.example/9'' \<in> set [''https://meta.example/6'', ''https://meta.example/9'',
      ''https://meta.example/10'', ''https://meta.example/11'', ''https://meta.example/12'']"
    by simp
  from t[THEN conjunct2, THEN conjunct2, THEN conjunct2, rule_format,
      OF r b example_failing_tokenURIs m f]
  have a: "\<exists>tr y v batches.
          processTransfers example_paced example_ctx example_failing_batch = Some (tr, Inl y)
        \<and> v \<in> set [''https://meta.example/6'', ''https://meta.example/9'', ''https://meta.example/10'',
                     ''https://meta.example/11'', ''https://meta.example/12'']
        \<and> fst (fetchTokenMetadata example_paced example_ctx v) = Inl y
        \<and> splitIntoBatches [''https://meta.example/6'', ''https://meta.example/9'',
              ''https://meta.example/10'', ''https://meta.example/11'', ''https://meta.example/12'']
              (MAX_IPFS_REQ_SEC example_paced) = Some batches
        \<and> 0 < length (groups tr) \<and> length (groups tr) \<le> length batches
        \<and> map (\<lambda>g. map snd (timers g)) (groups tr) = take (length (groups tr)) batches
        \<and> v \<in> set (batches ! (length (groups tr) - 1))"
    by blast
  show ?thesis
    by (intro conjI) (rule h1 h2 h3 f r b example_failing_tokenURIs a example_failing_processed)+
qed


section \<open>The shape of a metadata document\<close>












section \<open>Counting what a batch asks for\<close>

lemma ceil_div_ceiling: "ceil_div a b = \<lceil>real_of_int a / real_of_int b\<rceil>"
  by (simp add: ceil_div_def ceiling_divide_eq_div)

lemma sleep_ms_ceiling:
  "sleep_ms cfg K = \<lceil>1000 * (real K + 1) / real (MAX_IPFS_REQ_SEC cfg)\<rceil>"
proof -
  have "real_of_int (1000 * (int K + 1)) = 1000 * (real K + 1)" by simp
  moreover have "real_of_int (int (MAX_IPFS_REQ_SEC cfg)) = real (MAX_IPFS_REQ_SEC cfg)" by simp
  ultimately show ?thesis unfolding sleep_ms_def ceil_div_ceiling by presburger
qed

lemma run_group_timer_nth:
  assumes "K < length b"
  shows "timers (fst (run_group cfg ctx b)) ! K = (sleep_ms cfg K, b ! K)"
  using assms by (simp add: run_group_def nth_enumerate_eq)

lemma fetch_requests_le_1: "length (snd (fetchTokenMetadata cfg ctx u)) \<le> 1"
  by (simp add: fetchTokenMetadata_def Let_def split: option.splits sum.splits)

lemma run_group_counts:
  "length (timers (fst (run_group cfg ctx b))) = length b"
  "length (requests (fst (run_group cfg ctx b))) \<le> length b"
proof -
  show "length (timers (fst (run_group cfg ctx b))) = length b" by (simp add: run_group_def)
  have "length (concat (map (\<lambda>u. snd (fetchTokenMetadata cfg ctx u)) b)) \<le> length b"
  proof (induction b)
    case Nil
    show ?case by simp
  next
    case (Cons u b)
    then show ?case using fetch_requests_le_1[of cfg ctx u] by simp
  qed
  then show "length (requests (fst (run_group cfg ctx b))) \<le> length b"
    by (simp add: run_group_def comp_def)
qed

lemma groups_counts:
  "length (concat (map (\<lambda>b. timers (fst (run_group cfg ctx b))) bs)) = length (concat bs)"
  "length (concat (map (\<lambda>b. requests (fst (run_group cfg ctx b))) bs)) \<le> length (concat bs)"
proof -
  show "length (concat (map (\<lambda>b. timers (fst (run_group cfg ctx b))) bs)) = length (concat bs)"
    by (induction bs) (simp_all add: run_group_counts(1))
  show "length (concat (map (\<lambda>b. requests (fst (run_group cfg ctx b))) bs)) \<le> length (concat bs)"
  proof (induction bs)
    case Nil
    show ?case by simp
  next
    case (Cons b bs)
    then show ?case using run_group_counts(2)[of cfg ctx b] by simp
  qed
qed

lemma length_concat_take: "length (concat (take n bs)) \<le> length (concat bs)"
proof -
  have "concat bs = concat (take n bs) @ concat (drop n bs)"
    by (metis append_take_drop_id concat_append)
  then show ?thesis by simp
qed

lemma run_batches_counts:
  "length (concat (map timers (fst (run_batches cfg ctx bs)))) \<le> length (concat bs)"
  "length (concat (map requests (fst (run_batches cfg ctx bs)))) \<le> length (concat bs)"
proof -
  from run_batches_trace[of bs cfg ctx] obtain n where
    tr: "fst (run_batches cfg ctx bs) = map (\<lambda>b. fst (run_group cfg ctx b)) (take n bs)" by blast
  have "length (concat (map timers (fst (run_batches cfg ctx bs)))) = length (concat (take n bs))"
    unfolding tr using groups_counts(1)[of cfg ctx "take n bs"] by (simp add: comp_def)
  then show "length (concat (map timers (fst (run_batches cfg ctx bs)))) \<le> length (concat bs)"
    using length_concat_take[of n bs] by simp
  have "length (concat (map requests (fst (run_batches cfg ctx bs)))) \<le> length (concat (take n bs))"
    unfolding tr using groups_counts(2)[of cfg ctx "take n bs"] by (simp add: comp_def)
  then show "length (concat (map requests (fst (run_batches cfg ctx bs)))) \<le> length (concat bs)"
    using length_concat_take[of n bs] by simp
qed

lemma initTokens_trace_bounds:
  assumes "initTokens cfg ctx toks heap = Some (tr, out)"
  shows "(calls tr = [] \<or> calls tr = map (\<lambda>r. token_index (heap ! r)) toks)
    \<and> length (concat (map timers (groups tr))) \<le> length toks
    \<and> length (concat (map requests (groups tr))) \<le> length toks"
proof (cases "blocks ctx = []")
  case True
  with assms show ?thesis by (auto simp: initTokens_def)
next
  case False
  let ?args = "map (\<lambda>r. token_index (heap ! r)) toks"
  show ?thesis
  proof (cases "aggregate (tokenURI ctx (last (blocks ctx))) ?args (MUTLTICALL_BATCH_SIZE cfg)")
    case (Inl e)
    with assms False show ?thesis by (auto simp: initTokens_def Let_def)
  next
    case (Inr uris)
    from aggregate_Inr_length[OF Inr] have lu: "length uris = length toks" by simp
    from assms False Inr obtain batches where
      sp: "splitIntoBatches uris (MAX_IPFS_REQ_SEC cfg) = Some batches"
      by (auto simp: initTokens_def Let_def split: option.splits)
    from initTokens_unfold[OF False Inr sp] assms
    have tr: "tr = \<lparr>calls = ?args, groups = fst (run_batches cfg ctx batches)\<rparr>" by simp
    from splitIntoBatches_concat[OF sp] have cc: "concat batches = uris" .
    show ?thesis
      unfolding tr using run_batches_counts[of cfg ctx batches] cc lu by simp
  qed
qed

lemma processTransfers_trace:
  assumes "processTransfers cfg ctx tds = Some (tr, out)"
  shows "\<exists>out'. initTokens cfg ctx (newTokens (resolve_entities ctx tds))
                  (token_heap (resolve_entities ctx tds)) = Some (tr, out')
            \<and> (\<forall>e. out' = Inl e \<longrightarrow> out = Inl e)"
  using assms unfolding processTransfers_unfold
  by (auto split: option.splits sum.splits prod.splits)

lemma newTokens_facts:
  shows "distinct (newTokens (resolve_entities ctx tds))"
    and "distinct (map (\<lambda>r. token_id (token_heap (resolve_entities ctx tds) ! r))
                    (newTokens (resolve_entities ctx tds)))"
    and "\<forall>r \<in> set (newTokens (resolve_entities ctx tds)).
           token_id (token_heap (resolve_entities ctx tds) ! r) \<notin> token_id ` set (stored_tokens ctx)
         \<and> token_id (token_heap (resolve_entities ctx tds) ! r) \<in>
             (\<lambda>td. toString (tokenIndex td)) ` set tds"
proof -
  let ?st = "resolve_entities ctx tds"
  note p = replayedD[OF replayed_resolve[of ctx tds]]
  note l = load_entities_facts[of ctx tds]
  have et: "entity_inv token_id (tokens ?st) (token_heap ?st)"
    and sub: "set (newTokens ?st) \<subseteq> snd ` set (tokens ?st)"
    and d: "distinct (newTokens ?st)"
    using p(1) by (simp_all add: resolver_inv_def)
  show "distinct (newTokens ?st)" by (rule d)
  have "inj_on (\<lambda>r. token_id (token_heap ?st ! r)) (set (newTokens ?st))"
  proof (rule inj_onI)
    fix a b assume a: "a \<in> set (newTokens ?st)" and b: "b \<in> set (newTokens ?st)"
      and eq: "token_id (token_heap ?st ! a) = token_id (token_heap ?st ! b)"
    from a sub obtain ka where ka: "(ka, a) \<in> set (tokens ?st)" by force
    from b sub obtain kb where kb: "(kb, b) \<in> set (tokens ?st)" by force
    from et have dk: "distinct (map fst (tokens ?st))" by (simp add: entity_inv_def)
    from ka kb dk have ga: "Map_get (tokens ?st) ka = Some a" and gb: "Map_get (tokens ?st) kb = Some b"
      by (simp_all add: Map_get_Some)
    from entity_inv_Some[OF et ga] entity_inv_Some[OF et gb] eq have "ka = kb" by simp
    with ga gb show "a = b" by simp
  qed
  with d show "distinct (map (\<lambda>r. token_id (token_heap ?st ! r)) (newTokens ?st))"
    by (simp add: distinct_map)
  from p(7) l(4) obtain new where n: "newTokens ?st = new"
    and nn: "\<forall>r \<in> set new. token_id (token_heap ?st ! r) \<notin> fst ` set (tokens (load_entities ctx tds))
                          \<and> token_id (token_heap ?st ! r) \<in> (\<lambda>td. toString (tokenIndex td)) ` set tds"
    by auto
  show "\<forall>r \<in> set (newTokens ?st).
           token_id (token_heap ?st ! r) \<notin> token_id ` set (stored_tokens ctx)
         \<and> token_id (token_heap ?st ! r) \<in> (\<lambda>td. toString (tokenIndex td)) ` set tds"
    using nn unfolding n l(2) by blast
qed

section \<open>Pacing the fetches\<close>

text \<open>Claim C6. \<^verbatim>\<open>initTokens\<close> splits the URIs of the batch, in order, into consecutive groups
  of at most \<^verbatim>\<open>MAX_IPFS_REQ_SEC\<close> items and starts them in this order; a group is started only
  when every fetch of the group before it has succeeded; the timer of the item at index \<open>K\<close>
  of its group is set to \<open>\<lceil>1000 (K + 1) / MAX_IPFS_REQ_SEC\<rceil>\<close> milliseconds; when not
  every group was started, a fetch of the last group started has failed and its error is
  thrown.\<close>

theorem groups_paced_sequentially:
  assumes R: "1 \<le> MAX_IPFS_REQ_SEC cfg" and B: "blocks ctx \<noteq> []"
    and U: "batch_tokenURIs cfg ctx tds = Inr uris"
  shows "\<exists>batches tr out.
      splitIntoBatches uris (MAX_IPFS_REQ_SEC cfg) = Some batches
    \<and> concat batches = uris
    \<and> (\<forall>b \<in> set batches. length b \<le> MAX_IPFS_REQ_SEC cfg)
    \<and> processTransfers cfg ctx tds = Some (tr, out)
    \<and> 0 < length (groups tr) \<and> length (groups tr) \<le> length batches
    \<and> (\<forall>g < length (groups tr).
          map snd (timers (groups tr ! g)) = batches ! g
        \<and> (\<forall>K < length (batches ! g).
              fst (timers (groups tr ! g) ! K) =
                \<lceil>1000 * (real K + 1) / real (MAX_IPFS_REQ_SEC cfg)\<rceil>))
    \<and> (\<forall>g. Suc g < length (groups tr) \<longrightarrow>
          (\<forall>u \<in> set (batches ! g). \<exists>md. fst (fetchTokenMetadata cfg ctx u) = Inr md))
    \<and> (length (groups tr) < length batches \<longrightarrow>
          (\<exists>e. out = Inl e \<and>
             (\<exists>u \<in> set (batches ! (length (groups tr) - 1)). fst (fetchTokenMetadata cfg ctx u) = Inl e)))"
proof -
  let ?st = "resolve_entities ctx tds"
  from processTransfers_forward[OF R B U] obtain batches where
    sp: "splitIntoBatches uris (MAX_IPFS_REQ_SEC cfg) = Some batches"
    and ne: "batches \<noteq> []" and cc: "concat batches = uris"
    and le: "\<forall>b \<in> set batches. length b \<le> MAX_IPFS_REQ_SEC cfg"
    and it: "initTokens cfg ctx (newTokens ?st) (token_heap ?st) =
         Some (\<lparr>calls = map (\<lambda>r. token_index (token_heap ?st ! r)) (newTokens ?st),
                groups = fst (run_batches cfg ctx batches)\<rparr>,
               case snd (run_batches cfg ctx batches) of
                 Inl e \<Rightarrow> Inl e
               | Inr mds \<Rightarrow> assign_loop (newTokens ?st) 0 uris mds (token_heap ?st))"
    by blast
  let ?tr = "\<lparr>calls = map (\<lambda>r. token_index (token_heap ?st ! r)) (newTokens ?st),
                groups = fst (run_batches cfg ctx batches)\<rparr>"
  have "\<exists>out. processTransfers cfg ctx tds = Some (?tr, out)
          \<and> (\<forall>e. snd (run_batches cfg ctx batches) = Inl e \<longrightarrow> out = Inl e)"
    unfolding processTransfers_unfold it
    by (cases "snd (run_batches cfg ctx batches)") (auto split: sum.splits)
  then obtain out where pt: "processTransfers cfg ctx tds = Some (?tr, out)"
    and oe: "\<forall>e. snd (run_batches cfg ctx batches) = Inl e \<longrightarrow> out = Inl e" by blast
  from run_batches_trace[of batches cfg ctx] obtain n where
    n: "n \<le> length batches"
    and tr: "fst (run_batches cfg ctx batches) = map (\<lambda>b. fst (run_group cfg ctx b)) (take n batches)"
    and ok: "\<forall>g. Suc g < n \<longrightarrow> (\<exists>m. snd (run_group cfg ctx (batches ! g)) = Inr m)"
    and fin: "(case snd (run_batches cfg ctx batches) of
           Inr ms \<Rightarrow> n = length batches
         | Inl e \<Rightarrow> 0 < n \<and> snd (run_group cfg ctx (batches ! (n - 1))) = Inl e)"
    by blast
  have len: "length (groups ?tr) = n" using tr n by simp
  have pos: "0 < n" using fin ne by (cases "snd (run_batches cfg ctx batches)") simp_all
  have q5: "0 < length (groups ?tr)" and q6: "length (groups ?tr) \<le> length batches"
    using len pos n by simp_all
  have q7: "\<forall>g < length (groups ?tr).
          map snd (timers (groups ?tr ! g)) = batches ! g
        \<and> (\<forall>K < length (batches ! g).
              fst (timers (groups ?tr ! g) ! K) =
                \<lceil>1000 * (real K + 1) / real (MAX_IPFS_REQ_SEC cfg)\<rceil>)"
  proof (intro allI impI)
    fix g assume "g < length (groups ?tr)"
    with len have g: "g < n" by simp
    with n have gth: "groups ?tr ! g = fst (run_group cfg ctx (batches ! g))"
      by (simp add: tr)
    have t: "\<forall>K < length (batches ! g).
              fst (timers (groups ?tr ! g) ! K) =
                \<lceil>1000 * (real K + 1) / real (MAX_IPFS_REQ_SEC cfg)\<rceil>"
      unfolding gth by (simp add: run_group_timer_nth sleep_ms_ceiling)
    show "map snd (timers (groups ?tr ! g)) = batches ! g
        \<and> (\<forall>K < length (batches ! g).
              fst (timers (groups ?tr ! g) ! K) =
                \<lceil>1000 * (real K + 1) / real (MAX_IPFS_REQ_SEC cfg)\<rceil>)"
      using t unfolding gth by (simp add: run_group_timers)
  qed
  have q8: "\<forall>g. Suc g < length (groups ?tr) \<longrightarrow>
          (\<forall>u \<in> set (batches ! g). \<exists>md. fst (fetchTokenMetadata cfg ctx u) = Inr md)"
  proof (intro allI impI ballI)
    fix g u assume g: "Suc g < length (groups ?tr)" and u: "u \<in> set (batches ! g)"
    from g ok len obtain m where "snd (run_group cfg ctx (batches ! g)) = Inr m" by auto
    then have "map (\<lambda>u. fst (fetchTokenMetadata cfg ctx u)) (batches ! g) = map Inr m"
      by (simp add: run_group_Inr)
    then have "fst (fetchTokenMetadata cfg ctx u) \<in> set (map Inr m)"
      using u by (metis (no_types, lifting) image_eqI list.set_map)
    then show "\<exists>md. fst (fetchTokenMetadata cfg ctx u) = Inr md" by auto
  qed
  have q9: "length (groups ?tr) < length batches \<longrightarrow>
          (\<exists>e. out = Inl e \<and>
             (\<exists>u \<in> set (batches ! (length (groups ?tr) - 1)). fst (fetchTokenMetadata cfg ctx u) = Inl e))"
  proof
    assume "length (groups ?tr) < length batches"
    with len have lt: "n < length batches" by simp
    with fin obtain e where e: "snd (run_batches cfg ctx batches) = Inl e"
      and l: "snd (run_group cfg ctx (batches ! (n - 1))) = Inl e"
      by (cases "snd (run_batches cfg ctx batches)") auto
    from run_group_Inl[OF l] oe e show "\<exists>e. out = Inl e \<and>
             (\<exists>u \<in> set (batches ! (length (groups ?tr) - 1)). fst (fetchTokenMetadata cfg ctx u) = Inl e)"
      unfolding len by blast
  qed
  show ?thesis
    by (intro exI[of _ batches] exI[of _ ?tr] exI[of _ out] conjI)
       (rule sp cc le pt q5 q6 q7 q8 q9)+
qed

lemma example_paced_tokenURIs:
  "batch_tokenURIs example_paced example_ctx example_paced_batch =
     Inr [''https://meta.example/6'', ''https://meta.example/10'', ''https://meta.example/11'',
          ''https://meta.example/12'', ''https://meta.example/13'']"
  by code_simp

lemma example_paced_trace:
  "map_option fst (processTransfers example_paced example_ctx example_paced_batch) =
     Some \<lparr>calls = [6, 10, 11, 12, 13],
           groups =
             [\<lparr>timers = [(500, ''https://meta.example/6''), (1000, ''https://meta.example/10'')],
               requests = [''https://meta.example/6'', ''https://meta.example/10'']\<rparr>,
              \<lparr>timers = [(500, ''https://meta.example/11''), (1000, ''https://meta.example/12'')],
               requests = [''https://meta.example/11'', ''https://meta.example/12'']\<rparr>,
              \<lparr>timers = [(500, ''https://meta.example/13'')],
               requests = [''https://meta.example/13'']\<rparr>]\<rparr>"
  by code_simp

text \<open>Five new tokens at two requests per second: three groups, the timers at 500 and 1000
  milliseconds.\<close>

theorem groups_paced_sequentially_witness:
  "1 \<le> MAX_IPFS_REQ_SEC example_paced \<and> blocks example_ctx \<noteq> []
   \<and> batch_tokenURIs example_paced example_ctx example_paced_batch =
        Inr [''https://meta.example/6'', ''https://meta.example/10'', ''https://meta.example/11'',
             ''https://meta.example/12'', ''https://meta.example/13'']
   \<and> (\<exists>batches tr out.
        splitIntoBatches [''https://meta.example/6'', ''https://meta.example/10'',
            ''https://meta.example/11'', ''https://meta.example/12'', ''https://meta.example/13'']
          (MAX_IPFS_REQ_SEC example_paced) = Some batches
      \<and> processTransfers example_paced example_ctx example_paced_batch = Some (tr, out)
      \<and> 0 < length (groups tr) \<and> length (groups tr) \<le> length batches
      \<and> (\<forall>g < length (groups tr).
            map snd (timers (groups tr ! g)) = batches ! g
          \<and> (\<forall>K < length (batches ! g).
                fst (timers (groups tr ! g) ! K) =
                  \<lceil>1000 * (real K + 1) / real (MAX_IPFS_REQ_SEC example_paced)\<rceil>)))
   \<and> map_option fst (processTransfers example_paced example_ctx example_paced_batch) =
     Some \<lparr>calls = [6, 10, 11, 12, 13],
           groups =
             [\<lparr>timers = [(500, ''https://meta.example/6''), (1000, ''https://meta.example/10'')],
               requests = [''https://meta.example/6'', ''https://meta.example/10'']\<rparr>,
              \<lparr>timers = [(500, ''https://meta.example/11''), (1000, ''https://meta.example/12'')],
               requests = [''https://meta.example/11'', ''https://meta.example/12'']\<rparr>,
              \<lparr>timers = [(500, ''https://meta.example/13'')],
               requests = [''https://meta.example/13'']\<rparr>]\<rparr>"
proof -
  have r: "1 \<le> MAX_IPFS_REQ_SEC example_paced"
    by (simp add: example_paced_def main_config_def)
  have b: "blocks example_ctx \<noteq> []" by (simp add: example_ctx_def)
  from groups_paced_sequentially[OF r b example_paced_tokenURIs]
  have a: "\<exists>batches tr out.
        splitIntoBatches [''https://meta.example/6'', ''https://meta.example/10'',
            ''https://meta.example/11'', ''https://meta.example/12'', ''https://meta.example/13'']
          (MAX_IPFS_REQ_SEC example_paced) = Some batches
      \<and> processTransfers example_paced example_ctx example_paced_batch = Some (tr, out)
      \<and> 0 < length (groups tr) \<and> length (groups tr) \<le> length batches
      \<and> (\<forall>g < length (groups tr).
            map snd (timers (groups tr ! g)) = batches ! g
          \<and> (\<forall>K < length (batches ! g).
                fst (timers (groups tr ! g) ! K) =
                  \<lceil>1000 * (real K + 1) / real (MAX_IPFS_REQ_SEC example_paced)\<rceil>))"
    by blast
  show ?thesis
    by (intro conjI) (rule r b example_paced_tokenURIs a example_paced_trace)+
qed

section \<open>Enrichment of new tokens only\<close>

text \<open>Claim C2. What \<^verbatim>\<open>processTransfers\<close> asks the contract and the gateways for is asked for
  the tokens it constructed in this batch: the multicall has the indices of these tokens as
  its arguments, and at most one timer is set and one request made per such token. The tokens
  constructed have pairwise different ids, none of them stored, so a token that several
  transfers of the batch reference is enriched once. For a batch whose tokens are all stored
  no token is constructed: \<^verbatim>\<open>processTransfers\<close> returns, with no argument for the multicall,
  no timer and no request.\<close>

theorem enrichment_only_for_new_tokens:
  "(\<forall>tr out. processTransfers cfg ctx tds = Some (tr, out) \<longrightarrow>
        (calls tr = [] \<or>
         calls tr = map (\<lambda>r. token_index (token_heap (resolve_entities ctx tds) ! r))
                      (newTokens (resolve_entities ctx tds)))
      \<and> length (concat (map timers (groups tr))) \<le> length (newTokens (resolve_entities ctx tds))
      \<and> length (concat (map requests (groups tr))) \<le> length (newTokens (resolve_entities ctx tds)))
   \<and> distinct (newTokens (resolve_entities ctx tds))
   \<and> distinct (map (\<lambda>r. token_id (token_heap (resolve_entities ctx tds) ! r))
                 (newTokens (resolve_entities ctx tds)))
   \<and> (\<forall>r \<in> set (newTokens (resolve_entities ctx tds)).
         token_id (token_heap (resolve_entities ctx tds) ! r) \<notin> token_id ` set (stored_tokens ctx)
       \<and> token_id (token_heap (resolve_entities ctx tds) ! r) \<in>
           (\<lambda>td. toString (tokenIndex td)) ` set tds)
   \<and> ((\<forall>td \<in> set tds. toString (tokenIndex td) \<in> token_id ` set (stored_tokens ctx)) \<longrightarrow>
         newTokens (resolve_entities ctx tds) = []
       \<and> (\<exists>tr out. processTransfers cfg ctx tds = Some (tr, out)
             \<and> calls tr = [] \<and> concat (map timers (groups tr)) = []
             \<and> concat (map requests (groups tr)) = []))"
proof -
  let ?st = "resolve_entities ctx tds"
  note nf = newTokens_facts[of ctx tds]
  have q1: "\<forall>tr out. processTransfers cfg ctx tds = Some (tr, out) \<longrightarrow>
        (calls tr = [] \<or> calls tr = map (\<lambda>r. token_index (token_heap ?st ! r)) (newTokens ?st))
      \<and> length (concat (map timers (groups tr))) \<le> length (newTokens ?st)
      \<and> length (concat (map requests (groups tr))) \<le> length (newTokens ?st)"
  proof (intro allI impI)
    fix tr out assume "processTransfers cfg ctx tds = Some (tr, out)"
    from processTransfers_trace[OF this] obtain out' where
      "initTokens cfg ctx (newTokens ?st) (token_heap ?st) = Some (tr, out')" by blast
    from initTokens_trace_bounds[OF this]
    show "(calls tr = [] \<or> calls tr = map (\<lambda>r. token_index (token_heap ?st ! r)) (newTokens ?st))
      \<and> length (concat (map timers (groups tr))) \<le> length (newTokens ?st)
      \<and> length (concat (map requests (groups tr))) \<le> length (newTokens ?st)" .
  qed
  have q5: "(\<forall>td \<in> set tds. toString (tokenIndex td) \<in> token_id ` set (stored_tokens ctx)) \<longrightarrow>
         newTokens ?st = []
       \<and> (\<exists>tr out. processTransfers cfg ctx tds = Some (tr, out)
             \<and> calls tr = [] \<and> concat (map timers (groups tr)) = []
             \<and> concat (map requests (groups tr)) = [])"
  proof
    assume all: "\<forall>td \<in> set tds. toString (tokenIndex td) \<in> token_id ` set (stored_tokens ctx)"
    have e: "newTokens ?st = []"
    proof (cases "newTokens ?st")
      case Nil
      then show ?thesis .
    next
      case (Cons r rs)
      then have r: "r \<in> set (newTokens ?st)" by simp
      with nf(3) have "token_id (token_heap ?st ! r) \<notin> token_id ` set (stored_tokens ctx)"
        and "token_id (token_heap ?st ! r) \<in> (\<lambda>td. toString (tokenIndex td)) ` set tds"
        by blast+
      with all show ?thesis by auto
    qed
    have sp: "splitIntoBatches ([]::string list) (MAX_IPFS_REQ_SEC cfg) = Some [[]]"
      by (simp add: splitIntoBatches_def)
    have "\<exists>tr out. initTokens cfg ctx [] (token_heap ?st) = Some (tr, out)"
      by (simp add: initTokens_def Let_def aggregate_def sp run_group_def)
    then obtain tr out' where it: "initTokens cfg ctx (newTokens ?st) (token_heap ?st) = Some (tr, out')"
      unfolding e by blast
    then have "\<exists>out. processTransfers cfg ctx tds = Some (tr, out)"
      unfolding processTransfers_unfold by (cases out') simp_all
    then obtain out where pt: "processTransfers cfg ctx tds = Some (tr, out)" by blast
    from q1 pt have "calls tr = [] \<or> calls tr = map (\<lambda>r. token_index (token_heap ?st ! r)) (newTokens ?st)"
      and "length (concat (map timers (groups tr))) \<le> length (newTokens ?st)"
      and "length (concat (map requests (groups tr))) \<le> length (newTokens ?st)"
      by blast+
    then have "calls tr = []" "concat (map timers (groups tr)) = []"
      "concat (map requests (groups tr)) = []"
      unfolding e by auto
    with pt e show "newTokens ?st = []
       \<and> (\<exists>tr out. processTransfers cfg ctx tds = Some (tr, out)
             \<and> calls tr = [] \<and> concat (map timers (groups tr)) = []
             \<and> concat (map requests (groups tr)) = [])"
      by blast
  qed
  show ?thesis
    by (intro conjI) (rule q1 nf q5)+
qed

lemma example_stored_trace:
  "map_option fst (processTransfers main_config example_ctx [example_event ''t8'' ''0xa'' ''0xb'' 7]) =
     Some \<lparr>calls = [], groups = [\<lparr>timers = [], requests = []\<rparr>]\<rparr>"
  by code_simp

text \<open>A transfer of the stored token 7 enriches nothing; token 5, new and transferred twice in
  the example batch, is the one argument of the multicall, and its URI is not fetched.\<close>

theorem enrichment_only_for_new_tokens_witness:
  "toString (tokenIndex (example_event ''t8'' ''0xa'' ''0xb'' 7)) \<in> token_id ` set (stored_tokens example_ctx)
   \<and> newTokens (resolve_entities example_ctx [example_event ''t8'' ''0xa'' ''0xb'' 7]) = []
   \<and> (\<exists>tr out. processTransfers main_config example_ctx [example_event ''t8'' ''0xa'' ''0xb'' 7] =
          Some (tr, out)
        \<and> calls tr = [] \<and> concat (map timers (groups tr)) = []
        \<and> concat (map requests (groups tr)) = [])
   \<and> map_option fst (processTransfers main_config example_ctx [example_event ''t8'' ''0xa'' ''0xb'' 7]) =
        Some \<lparr>calls = [], groups = [\<lparr>timers = [], requests = []\<rparr>]\<rparr>
   \<and> processTransfers main_config example_ctx example_batch =
        Some (\<lparr>calls = [5], groups = [\<lparr>timers = [(40, ''ftp://x'')], requests = []\<rparr>]\<rparr>,
              Inr (example_final, flush example_final))
   \<and> length (concat (map timers (groups
        \<lparr>calls = [5], groups = [\<lparr>timers = [(40, ''ftp://x'')], requests = []\<rparr>]\<rparr>)))
        \<le> length (newTokens (resolve_entities example_ctx example_batch))
   \<and> newTokens (resolve_entities example_ctx example_batch) = [1]"
proof -
  note t = enrichment_only_for_new_tokens[of main_config example_ctx
      "[example_event ''t8'' ''0xa'' ''0xb'' 7]"]
  have s: "toString (tokenIndex (example_event ''t8'' ''0xa'' ''0xb'' 7)) \<in>
      token_id ` set (stored_tokens example_ctx)"
    by code_simp
  then have all: "\<forall>td \<in> set [example_event ''t8'' ''0xa'' ''0xb'' 7].
      toString (tokenIndex td) \<in> token_id ` set (stored_tokens example_ctx)" by simp
  note c = t[THEN conjunct2, THEN conjunct2, THEN conjunct2, THEN conjunct2, THEN mp, OF all]
  note u = enrichment_only_for_new_tokens[of main_config example_ctx example_batch,
      THEN conjunct1, rule_format, OF example_processed]
  have n: "newTokens (resolve_entities example_ctx example_batch) = [1]"
    unfolding example_resolved by simp
  show ?thesis
    by (intro conjI)
       (rule s c[THEN conjunct1] c[THEN conjunct2] example_stored_trace example_processed
          u[THEN conjunct2, THEN conjunct1] n)+
qed

end
